theory Spec2Isabelle
  imports
    Main
    "HOL-Library.Word"
    "HOL-Library.Option_ord"
    "HOL-Library.Char_ord"
    "HOL-Library.List_Lexorder"
    "HOL-Library.Product_Lexorder"
    "HOL-Library.FSet"
begin

unbundle bit_operations_syntax

section \<open>Module.hpp: symbols of a module and their indices\<close>

text \<open>
  Nodes live in the Context arena and are referred to by pointer. A pointer is modelled
  as a natural number; every number names an object of the arena, so no pointer of the
  model is null, and a null parent is \<open>None\<close>. \<open>Addr\<close> is an unsigned 64-bit address.
\<close>

type_synonym Addr = "64 word"
type_synonym symbol_ptr = nat
type_synonym module_ptr = nat

text \<open>
  The part of a \<open>Symbol\<close> that \<open>Module\<close> reads and writes: what \<open>getName()\<close> and
  \<open>getAddress()\<close> return (the keys of the ordered indices; an absent address is
  \<open>None\<close>), and the two fields that \<open>setParent\<close> assigns. \<open>Symbol.hpp\<close> is not among
  the sources; the operations of \<open>Module.hpp\<close> modelled here change neither the name nor
  the address of a symbol.
\<close>

record Symbol =
  Name :: string
  Address :: "Addr option"
  Parent :: "module_ptr option"
  Observer :: "module_ptr option"

text \<open>
  \<open>SymbolSet\<close> is a multi-index container over \<open>Symbol*\<close>. The two ordered, non-unique
  indices are sequences of pointers; the two hashed indices have no specified order and
  are sets of pointers. An iterator into an ordered index is a position in its sequence,
  \<open>end()\<close> being the length.
\<close>

record SymbolSet =
  by_address :: "symbol_ptr list"
  by_name :: "symbol_ptr list"
  by_pointer :: "symbol_ptr set"
  by_referent :: "symbol_ptr set"

record Module =
  Symbols :: SymbolSet

record state =
  symbols :: "symbol_ptr \<Rightarrow> Symbol"
  modules :: "module_ptr \<Rightarrow> Module"

definition getName :: "state \<Rightarrow> symbol_ptr \<Rightarrow> string" where
  "getName st S = Name (symbols st S)"

definition getAddress :: "state \<Rightarrow> symbol_ptr \<Rightarrow> Addr option" where
  "getAddress st S = Address (symbols st S)"

definition getModule :: "state \<Rightarrow> symbol_ptr \<Rightarrow> module_ptr option" where
  "getModule st S = Parent (symbols st S)"

definition setParent ::
    "symbol_ptr \<Rightarrow> module_ptr option \<Rightarrow> module_ptr option \<Rightarrow> state \<Rightarrow> state" where
  "setParent S M Obs st =
     st\<lparr>symbols := (symbols st)(S := (symbols st S)\<lparr>Parent := M, Observer := Obs\<rparr>)\<rparr>"

subsection \<open>Ordered indices\<close>

text \<open>
  \<open>lower_bound k\<close> is the position of the first element whose key is not less than
  \<open>k\<close>, \<open>upper_bound k\<close> the position of the first element whose key is greater than
  \<open>k\<close>, and \<open>equal_range k\<close> the pair of both. An ordered non-unique index places a new
  element after the elements with an equivalent key.
\<close>

definition lower_bound :: "('a \<Rightarrow> 'k::linorder) \<Rightarrow> 'a list \<Rightarrow> 'k \<Rightarrow> nat" where
  "lower_bound key xs k = length (takeWhile (\<lambda>x. key x < k) xs)"

definition upper_bound :: "('a \<Rightarrow> 'k::linorder) \<Rightarrow> 'a list \<Rightarrow> 'k \<Rightarrow> nat" where
  "upper_bound key xs k = length (takeWhile (\<lambda>x. key x \<le> k) xs)"

definition equal_range :: "('a \<Rightarrow> 'k::linorder) \<Rightarrow> 'a list \<Rightarrow> 'k \<Rightarrow> nat \<times> nat" where
  "equal_range key xs k = (lower_bound key xs k, upper_bound key xs k)"

definition ordered_insert :: "('a \<Rightarrow> 'k::linorder) \<Rightarrow> 'a \<Rightarrow> 'a list \<Rightarrow> 'a list" where
  "ordered_insert key x xs =
     (let n = upper_bound key xs (key x) in take n xs @ x # drop n xs)"

text \<open>
  Walking an iterator range \<open>[b, e)\<close> of a sequence: the elements met while stepping
  from \<open>b\<close> until \<open>e\<close> is reached. Stepping past \<open>end()\<close> is undefined behaviour; the
  walk then has no result.
\<close>

function range_elems :: "'a list \<Rightarrow> nat \<Rightarrow> nat \<Rightarrow> 'a list option" where
  "range_elems xs b e =
     (if b = e then Some []
      else if length xs \<le> b then None
      else map_option (Cons (xs ! b)) (range_elems xs (Suc b) e))"
  by pat_completeness auto
termination
  by (relation "measure (\<lambda>(xs, b, e). length xs - b)") auto

declare range_elems.simps [simp del]

subsection \<open>The container operations used by Module\<close>

definition emplace :: "state \<Rightarrow> symbol_ptr \<Rightarrow> SymbolSet \<Rightarrow> SymbolSet" where
  "emplace st S C =
     (if S \<in> by_pointer C then C
      else \<lparr>by_address = ordered_insert (getAddress st) S (by_address C),
            by_name = ordered_insert (getName st) S (by_name C),
            by_pointer = insert S (by_pointer C),
            by_referent = insert S (by_referent C)\<rparr>)"

definition erase :: "symbol_ptr \<Rightarrow> SymbolSet \<Rightarrow> SymbolSet" where
  "erase S C =
     \<lparr>by_address = remove1 S (by_address C),
      by_name = remove1 S (by_name C),
      by_pointer = by_pointer C - {S},
      by_referent = by_referent C - {S}\<rparr>"

definition set_Symbols :: "module_ptr \<Rightarrow> SymbolSet \<Rightarrow> state \<Rightarrow> state" where
  "set_Symbols M C st = st\<lparr>modules := (modules st)(M := (modules st M)\<lparr>Symbols := C\<rparr>)\<rparr>"

subsection \<open>Module::removeSymbol, Module::addSymbol, Module::findSymbols\<close>

definition removeSymbol :: "module_ptr \<Rightarrow> symbol_ptr \<Rightarrow> state \<Rightarrow> bool \<times> state" where
  "removeSymbol M S st =
     (let Index = Symbols (modules st M) in
      if S \<in> by_pointer Index
      then (True, setParent S None None (set_Symbols M (erase S Index) st))
      else (False, st))"

definition addSymbol :: "module_ptr \<Rightarrow> symbol_ptr \<Rightarrow> state \<Rightarrow> symbol_ptr \<times> state" where
  "addSymbol M S st =
     (let st1 = (case getModule st S of
                   Some M' \<Rightarrow> snd (removeSymbol M' S st)
                 | None \<Rightarrow> st);
          st2 = set_Symbols M (emplace st1 S (Symbols (modules st1 M))) st1
      in (S, setParent S (Some M) (Some M) st2))"

definition findSymbols_name :: "state \<Rightarrow> module_ptr \<Rightarrow> string \<Rightarrow> nat \<times> nat" where
  "findSymbols_name st M N =
     equal_range (getName st) (by_name (Symbols (modules st M))) N"

definition findSymbols_addr :: "state \<Rightarrow> module_ptr \<Rightarrow> Addr \<Rightarrow> nat \<times> nat" where
  "findSymbols_addr st M X =
     equal_range (getAddress st) (by_address (Symbols (modules st M))) (Some X)"

definition findSymbols_range :: "state \<Rightarrow> module_ptr \<Rightarrow> Addr \<Rightarrow> Addr \<Rightarrow> nat \<times> nat" where
  "findSymbols_range st M Lower Upper =
     (let Index = by_address (Symbols (modules st M)) in
      (lower_bound (getAddress st) Index (Some Lower),
       lower_bound (getAddress st) Index (Some Upper)))"

text \<open>The symbols a caller meets when iterating the range a query returned.\<close>

definition symbols_by_name_in :: "state \<Rightarrow> module_ptr \<Rightarrow> nat \<times> nat \<Rightarrow> symbol_ptr list option" where
  "symbols_by_name_in st M r = range_elems (by_name (Symbols (modules st M))) (fst r) (snd r)"

definition symbols_by_addr_in :: "state \<Rightarrow> module_ptr \<Rightarrow> nat \<times> nat \<Rightarrow> symbol_ptr list option" where
  "symbols_by_addr_in st M r = range_elems (by_address (Symbols (modules st M))) (fst r) (snd r)"

subsection \<open>Consistency of a module's indices and of the parent pointers\<close>

text \<open>
  The indices of a \<open>SymbolSet\<close> are consistent when all four hold the same symbols, each
  once, and the two ordered indices are in the order of their keys. The parent pointers
  are consistent when a symbol's parent is a module exactly if that module lists it.
\<close>

definition symbolset_inv :: "state \<Rightarrow> SymbolSet \<Rightarrow> bool" where
  "symbolset_inv st C \<longleftrightarrow>
     distinct (by_address C) \<and> set (by_address C) = by_pointer C \<and>
     distinct (by_name C) \<and> set (by_name C) = by_pointer C \<and>
     by_referent C = by_pointer C \<and>
     sorted (map (getAddress st) (by_address C)) \<and>
     sorted (map (getName st) (by_name C))"

definition parent_inv :: "state \<Rightarrow> bool" where
  "parent_inv st \<longleftrightarrow>
     (\<forall>S M. (getModule st S = Some M) = (S \<in> by_pointer (Symbols (modules st M))))"

definition state_inv :: "state \<Rightarrow> bool" where
  "state_inv st \<longleftrightarrow> (\<forall>M. symbolset_inv st (Symbols (modules st M))) \<and> parent_inv st"

text \<open>
  A fresh Context: every module has an empty \<open>SymbolSet\<close> and every symbol, whatever
  its name and address, has no parent.
\<close>

definition empty_SymbolSet :: SymbolSet where
  "empty_SymbolSet = \<lparr>by_address = [], by_name = [], by_pointer = {}, by_referent = {}\<rparr>"

definition init_state :: "(symbol_ptr \<Rightarrow> string) \<Rightarrow> (symbol_ptr \<Rightarrow> Addr option) \<Rightarrow> state" where
  "init_state names addrs =
     \<lparr>symbols = (\<lambda>S. \<lparr>Name = names S, Address = addrs S, Parent = None, Observer = None\<rparr>),
      modules = (\<lambda>M. \<lparr>Symbols = empty_SymbolSet\<rparr>)\<rparr>"

text \<open>
  The states a program reaches from a fresh Context by adding and removing symbols.
\<close>

inductive reachable :: "state \<Rightarrow> bool" where
  reachable_init: "reachable (init_state names addrs)"
| reachable_add: "reachable st \<Longrightarrow> reachable (snd (addSymbol M S st))"
| reachable_remove: "reachable st \<Longrightarrow> reachable (snd (removeSymbol M S st))"

subsection \<open>A module with three symbols\<close>

text \<open>
  Symbols 0, 1 and 2 are named \<open>start\<close>, \<open>main\<close> and \<open>start\<close>; symbol 1 has no address.
  They are added to module 0 of a fresh Context in that order.
\<close>

definition scenario_names :: "symbol_ptr \<Rightarrow> string" where
  "scenario_names S =
     (if S = 0 then ''start'' else if S = 1 then ''main'' else if S = 2 then ''start'' else [])"

definition scenario_addrs :: "symbol_ptr \<Rightarrow> Addr option" where
  "scenario_addrs S =
     (if S = 0 then Some 0x1000 else if S = 1 then None else if S = 2 then Some 0x2000 else None)"

definition scenario_state :: state where
  "scenario_state =
     snd (addSymbol 0 2 (snd (addSymbol 0 1 (snd (addSymbol 0 0
       (init_state scenario_names scenario_addrs))))))"


section \<open>CodeBlock.hpp: the size of a code block\<close>

text \<open>
  \<open>ChangeStatus\<close> is what an observer answers; its enumerators are the ones the
  documentation of \<open>Module\<close> names. \<open>DecodeMode\<close> is the enum of \<open>CodeBlock.hpp\<close>.
\<close>

datatype ChangeStatus = Accepted | NoChange | Rejected

datatype DecodeMode = Default | Thumb

type_synonym byte_interval_ptr = nat
type_synonym observer_ptr = nat

record CodeBlock =
  cb_Parent :: "byte_interval_ptr option"
  cb_Observer :: "observer_ptr option"
  Size :: "64 word"
  DecodeMode :: DecodeMode

text \<open>
  \<open>CodeBlockObserver\<close> is an interface whose implementations are not part of
  \<open>CodeBlock.hpp\<close>. The virtual call \<open>Observer->sizeChange(this, Old, New)\<close> is a
  parameter of the model: it is given the observer, the block as it is at the moment of
  the call and the two sizes, and it answers with a status while it changes the state
  \<open>'w\<close> of its owner. It reads the block and does not write it.
\<close>

type_synonym 'w sizeChange_impl =
  "observer_ptr \<Rightarrow> CodeBlock \<Rightarrow> 64 word \<Rightarrow> 64 word \<Rightarrow> 'w \<Rightarrow> ChangeStatus \<times> 'w"

text \<open>
  A call either returns or stops the program at a failing \<open>assert\<close>; both carry the
  state reached. Without \<open>NDEBUG\<close> a false assertion aborts, with it the assertion is
  compiled away.
\<close>

datatype 'a outcome = Returns 'a | AssertionFailed 'a

fun reached :: "'a outcome \<Rightarrow> 'a" where
  "reached (Returns x) = x"
| "reached (AssertionFailed x) = x"

definition getSize :: "CodeBlock \<Rightarrow> 64 word" where
  "getSize b = Size b"

definition cb_setParent :: "byte_interval_ptr option \<Rightarrow> observer_ptr option \<Rightarrow> CodeBlock \<Rightarrow> CodeBlock" where
  "cb_setParent BI Obs b = b\<lparr>cb_Parent := BI, cb_Observer := Obs\<rparr>"

definition setSize ::
    "bool \<Rightarrow> 'w sizeChange_impl \<Rightarrow> 64 word \<Rightarrow> CodeBlock \<times> 'w \<Rightarrow> (CodeBlock \<times> 'w) outcome" where
  "setSize NDEBUG sizeChange S0 bw =
     (case bw of (b, w) \<Rightarrow>
        (case cb_Observer b of
           Some Obs \<Rightarrow>
             (let b1 = b\<lparr>Size := S0\<rparr>;
                  S1 = Size b;
                  (Status, w1) = sizeChange Obs b1 S1 (Size b1) w
              in if \<not> NDEBUG \<and> Status = Rejected
                 then AssertionFailed (b1, w1)
                 else Returns (b1, w1))
         | None \<Rightarrow> Returns (b\<lparr>Size := S0\<rparr>, w)))"

text \<open>
  Two observers to run the model on: one records what it is told, with the size it reads
  from the block, and accepts; the other does the same and rejects.
\<close>

definition recording_observer :: "(64 word \<times> 64 word \<times> 64 word) list sizeChange_impl" where
  "recording_observer Obs b Old New w =
     (if Obs = 0 then Accepted else Rejected, w @ [(getSize b, Old, New)])"

definition block_of_size :: "64 word \<Rightarrow> observer_ptr option \<Rightarrow> CodeBlock" where
  "block_of_size n Obs =
     \<lparr>cb_Parent = Obs, cb_Observer = Obs, Size = n, DecodeMode = Default\<rparr>"


section \<open>Variant11.java: an eleven-valued variant\<close>

text \<open>
  A Java reference is either \<open>null\<close> or an object. All type parameters of
  \<open>Variant11\<close> are erased to \<open>Object\<close>, so one type \<open>'o\<close> of objects stands for them.
  The field \<open>o\<close> of the class is called \<open>obj\<close> here. \<open>java.util.Optional\<close> is
  \<open>option\<close>; \<open>Optional.of\<close> throws on \<open>null\<close>.
\<close>

datatype 'o ref = Null | Ref 'o

datatype exn = NullPointerException

record 'o Variant11 =
  obj :: "'o ref"
  index :: int

definition Optional_of :: "'o ref \<Rightarrow> exn + 'o option" where
  "Optional_of r = (case r of Null \<Rightarrow> Inl NullPointerException | Ref x \<Rightarrow> Inr (Some x))"

definition Optional_empty :: "exn + 'o option" where
  "Optional_empty = Inr None"

subsection \<open>Constructors\<close>

definition Variant11_T0 :: "'o ref \<Rightarrow> 'o Variant11" where
  "Variant11_T0 ob = \<lparr>obj = ob, index = 0\<rparr>"

definition Variant11_T1 :: "'o ref \<Rightarrow> 'o Variant11" where
  "Variant11_T1 ob = \<lparr>obj = ob, index = 1\<rparr>"

definition Variant11_T2 :: "'o ref \<Rightarrow> 'o Variant11" where
  "Variant11_T2 ob = \<lparr>obj = ob, index = 2\<rparr>"

definition Variant11_T3 :: "'o ref \<Rightarrow> 'o Variant11" where
  "Variant11_T3 ob = \<lparr>obj = ob, index = 3\<rparr>"

definition Variant11_T4 :: "'o ref \<Rightarrow> 'o Variant11" where
  "Variant11_T4 ob = \<lparr>obj = ob, index = 4\<rparr>"

definition Variant11_T5 :: "'o ref \<Rightarrow> 'o Variant11" where
  "Variant11_T5 ob = \<lparr>obj = ob, index = 5\<rparr>"

definition Variant11_T6 :: "'o ref \<Rightarrow> 'o Variant11" where
  "Variant11_T6 ob = \<lparr>obj = ob, index = 6\<rparr>"

definition Variant11_T7 :: "'o ref \<Rightarrow> 'o Variant11" where
  "Variant11_T7 ob = \<lparr>obj = ob, index = 7\<rparr>"

definition Variant11_T8 :: "'o ref \<Rightarrow> 'o Variant11" where
  "Variant11_T8 ob = \<lparr>obj = ob, index = 8\<rparr>"

definition Variant11_T9 :: "'o ref \<Rightarrow> 'o Variant11" where
  "Variant11_T9 ob = \<lparr>obj = ob, index = 9\<rparr>"

definition Variant11_T10 :: "'o ref \<Rightarrow> 'o Variant11" where
  "Variant11_T10 ob = \<lparr>obj = ob, index = 10\<rparr>"

subsection \<open>getIndex and the getters\<close>

definition getIndex :: "'o Variant11 \<Rightarrow> int" where
  "getIndex v = index v"

definition get0 :: "'o Variant11 \<Rightarrow> exn + 'o option" where
  "get0 v = (if index v = 0 then Optional_of (obj v) else Optional_empty)"

definition get1 :: "'o Variant11 \<Rightarrow> exn + 'o option" where
  "get1 v = (if index v = 1 then Optional_of (obj v) else Optional_empty)"

definition get2 :: "'o Variant11 \<Rightarrow> exn + 'o option" where
  "get2 v = (if index v = 2 then Optional_of (obj v) else Optional_empty)"

definition get3 :: "'o Variant11 \<Rightarrow> exn + 'o option" where
  "get3 v = (if index v = 3 then Optional_of (obj v) else Optional_empty)"

definition get4 :: "'o Variant11 \<Rightarrow> exn + 'o option" where
  "get4 v = (if index v = 4 then Optional_of (obj v) else Optional_empty)"

definition get5 :: "'o Variant11 \<Rightarrow> exn + 'o option" where
  "get5 v = (if index v = 5 then Optional_of (obj v) else Optional_empty)"

definition get6 :: "'o Variant11 \<Rightarrow> exn + 'o option" where
  "get6 v = (if index v = 6 then Optional_of (obj v) else Optional_empty)"

definition get7 :: "'o Variant11 \<Rightarrow> exn + 'o option" where
  "get7 v = (if index v = 7 then Optional_of (obj v) else Optional_empty)"

definition get8 :: "'o Variant11 \<Rightarrow> exn + 'o option" where
  "get8 v = (if index v = 8 then Optional_of (obj v) else Optional_empty)"

definition get9 :: "'o Variant11 \<Rightarrow> exn + 'o option" where
  "get9 v = (if index v = 9 then Optional_of (obj v) else Optional_empty)"

definition get10 :: "'o Variant11 \<Rightarrow> exn + 'o option" where
  "get10 v = (if index v = 10 then Optional_of (obj v) else Optional_empty)"

subsection \<open>Setters\<close>

definition set0 :: "'o ref \<Rightarrow> 'o Variant11 \<Rightarrow> 'o Variant11" where
  "set0 ob v = v\<lparr>index := 0, obj := ob\<rparr>"

definition set1 :: "'o ref \<Rightarrow> 'o Variant11 \<Rightarrow> 'o Variant11" where
  "set1 ob v = v\<lparr>index := 1, obj := ob\<rparr>"

definition set2 :: "'o ref \<Rightarrow> 'o Variant11 \<Rightarrow> 'o Variant11" where
  "set2 ob v = v\<lparr>index := 2, obj := ob\<rparr>"

definition set3 :: "'o ref \<Rightarrow> 'o Variant11 \<Rightarrow> 'o Variant11" where
  "set3 ob v = v\<lparr>index := 3, obj := ob\<rparr>"

definition set4 :: "'o ref \<Rightarrow> 'o Variant11 \<Rightarrow> 'o Variant11" where
  "set4 ob v = v\<lparr>index := 4, obj := ob\<rparr>"

definition set5 :: "'o ref \<Rightarrow> 'o Variant11 \<Rightarrow> 'o Variant11" where
  "set5 ob v = v\<lparr>index := 5, obj := ob\<rparr>"

definition set6 :: "'o ref \<Rightarrow> 'o Variant11 \<Rightarrow> 'o Variant11" where
  "set6 ob v = v\<lparr>index := 6, obj := ob\<rparr>"

definition set7 :: "'o ref \<Rightarrow> 'o Variant11 \<Rightarrow> 'o Variant11" where
  "set7 ob v = v\<lparr>index := 7, obj := ob\<rparr>"

definition set8 :: "'o ref \<Rightarrow> 'o Variant11 \<Rightarrow> 'o Variant11" where
  "set8 ob v = v\<lparr>index := 8, obj := ob\<rparr>"

definition set9 :: "'o ref \<Rightarrow> 'o Variant11 \<Rightarrow> 'o Variant11" where
  "set9 ob v = v\<lparr>index := 9, obj := ob\<rparr>"

definition set10 :: "'o ref \<Rightarrow> 'o Variant11 \<Rightarrow> 'o Variant11" where
  "set10 ob v = v\<lparr>index := 10, obj := ob\<rparr>"

subsection \<open>The members by field number\<close>

definition constructors :: "('o ref \<Rightarrow> 'o Variant11) list" where
  "constructors = [Variant11_T0, Variant11_T1, Variant11_T2, Variant11_T3, Variant11_T4,
     Variant11_T5, Variant11_T6, Variant11_T7, Variant11_T8, Variant11_T9, Variant11_T10]"

definition getters :: "('o Variant11 \<Rightarrow> exn + 'o option) list" where
  "getters = [get0, get1, get2, get3, get4, get5, get6, get7, get8, get9, get10]"

definition setters :: "('o ref \<Rightarrow> 'o Variant11 \<Rightarrow> 'o Variant11) list" where
  "setters = [set0, set1, set2, set3, set4, set5, set6, set7, set8, set9, set10]"


section \<open>Bytes\<close>

text \<open>
  The serialization layer and the AuxData codec are not among the sources. What the
  following sections model from the specification works on sequences of bytes.
\<close>

type_synonym byte = "8 word"

text \<open>
  Modelled from the spec: the next \<open>n\<close> bytes of a byte sequence and what follows them;
  missing bytes are a failure (the byte readers of the codecs are missing).
\<close>

definition take_bytes :: "nat \<Rightarrow> byte list \<Rightarrow> (byte list \<times> byte list) option" where
  "take_bytes n bs = (if length bs < n then None else Some (take n bs, drop n bs))"

text \<open>
  Modelled from the spec: a count, a byte length, a tag or a varint value is an unsigned
  64-bit number, so it has to be below \<open>2^64\<close> (the codecs are missing).
\<close>

definition fits_count :: "nat \<Rightarrow> bool" where
  "fits_count n \<longleftrightarrow> int n < 2 ^ 64"


section \<open>The wire envelope and the read path\<close>

text \<open>
  The reader (\<open>IR::read\<close>, \<open>IR.loadFile\<close> in Java, \<open>read-proto\<close> in Lisp) is not among
  the sources; only tests that call it are. The definitions of this section follow the
  specification of the envelope and of the error kinds.
\<close>

text \<open>
  Modelled from the spec: the error kinds a read can fail with (the enumeration of the
  reader's errors is missing).
\<close>

datatype read_error = IoError | BadEnvelope | DecodeError

text \<open>
  Modelled from the spec: a structured message in Protocol Buffers wire semantics, as the
  sequence of its fields, each a field number with a value of one of the four wire types
  (the generated message classes are missing). The schema of the IR root message is not
  given, so a message is kept at this level.
\<close>

datatype wire_value =
    Varint nat
  | Fixed64 "byte list"
  | LengthDelimited "byte list"
  | Fixed32 "byte list"

type_synonym message = "(nat \<times> wire_value) list"

text \<open>Modelled from the spec: the five magic bytes \<open>GTIRB\<close> (the reader is missing).\<close>

definition magic :: "byte list" where
  "magic = [0x47, 0x54, 0x49, 0x52, 0x42]"

text \<open>
  Modelled from the spec: a base-128 varint of at most \<open>n\<close> bytes, least significant
  group first, the top bit of a byte saying that another byte follows (the payload parser
  is missing). A sequence that ends inside a varint has no value.
\<close>

fun varint :: "nat \<Rightarrow> byte list \<Rightarrow> (nat \<times> byte list) option" where
  "varint n [] = None"
| "varint n (b # bs) =
     (if n = 0 then None
      else if b < 0x80 then Some (unat b, bs)
      else (case varint (n - 1) bs of
              None \<Rightarrow> None
            | Some (v, r) \<Rightarrow> Some (unat (b AND 0x7F) + 128 * v, r)))"

text \<open>
  Modelled from the spec: one field of a message: a varint tag holding the field number
  and the wire type, then the value in the layout of that wire type (the payload parser is
  missing).
\<close>

definition wire_field :: "byte list \<Rightarrow> ((nat \<times> wire_value) \<times> byte list) option" where
  "wire_field bs =
     (case varint 10 bs of
        None \<Rightarrow> None
      | Some (tag, r) \<Rightarrow>
          (let number = tag div 8; wire_type = tag mod 8 in
           if number = 0 then None
           else if wire_type = 0 then
             (case varint 10 r of None \<Rightarrow> None | Some (v, r') \<Rightarrow> Some ((number, Varint v), r'))
           else if wire_type = 1 then
             (case take_bytes 8 r of None \<Rightarrow> None | Some (p, r') \<Rightarrow> Some ((number, Fixed64 p), r'))
           else if wire_type = 2 then
             (case varint 10 r of
                None \<Rightarrow> None
              | Some (n, r') \<Rightarrow>
                  (case take_bytes n r' of
                     None \<Rightarrow> None
                   | Some (p, r'') \<Rightarrow> Some ((number, LengthDelimited p), r'')))
           else if wire_type = 5 then
             (case take_bytes 4 r of None \<Rightarrow> None | Some (p, r') \<Rightarrow> Some ((number, Fixed32 p), r'))
           else None))"

text \<open>
  Modelled from the spec: parsing the payload as a message, field after field until the
  bytes are used up (the payload parser is missing). \<open>None\<close> is a malformed payload.
\<close>

function parse_message :: "byte list \<Rightarrow> message option" where
  "parse_message bs =
     (if bs = [] then Some []
      else (case wire_field bs of
              None \<Rightarrow> None
            | Some (f, r) \<Rightarrow>
                if length r < length bs
                then (case parse_message r of None \<Rightarrow> None | Some fs \<Rightarrow> Some (f # fs))
                else None))"
  by pat_completeness auto
termination
  by (relation "measure length") auto

declare parse_message.simps [simp del]

text \<open>
  Modelled from the spec: the read path (the reader is missing): verify the magic, read
  the version byte that follows the two reserved bytes, hand an older version to the
  upgrade pipeline, which is a parameter, and parse the payload of the current version.
  A missing magic, a truncated header and a version that is neither the current nor an
  older one are \<open>BadEnvelope\<close>; a malformed payload is \<open>DecodeError\<close>.
\<close>

definition read_envelope ::
    "byte \<Rightarrow> (byte \<Rightarrow> byte list \<Rightarrow> read_error + message) \<Rightarrow> byte list \<Rightarrow> read_error + message" where
  "read_envelope current upgrade B =
     (if take 5 B \<noteq> magic then Inl BadEnvelope
      else if length B < 8 then Inl BadEnvelope
      else (let version = B ! 7; payload = drop 8 B in
            if version = current then
              (case parse_message payload of None \<Rightarrow> Inl DecodeError | Some m \<Rightarrow> Inr m)
            else if version < current then upgrade version payload
            else Inl BadEnvelope))"

text \<open>
  Modelled from the spec: the Java entry point \<open>IR.loadFile\<close> (missing), which the tests
  observe to answer \<open>null\<close> for every failed read.
\<close>

definition loadFile ::
    "byte \<Rightarrow> (byte \<Rightarrow> byte list \<Rightarrow> read_error + message) \<Rightarrow> byte list \<Rightarrow> message option" where
  "loadFile current upgrade B =
     (case read_envelope current upgrade B of Inl e \<Rightarrow> None | Inr ir \<Rightarrow> Some ir)"

text \<open>
  Modelled from the spec: an upgrade pipeline that knows no older version, to run the
  read path on (the upgrade pipeline is missing).
\<close>

definition no_upgrade :: "byte \<Rightarrow> byte list \<Rightarrow> read_error + message" where
  "no_upgrade version payload = Inl BadEnvelope"


section \<open>The AuxData type grammar and codec\<close>

text \<open>
  The codec of AuxData values (\<open>aux-data-encode\<close> and \<open>aux-data-decode\<close> in Lisp, the
  \<open>auxdata_traits\<close> in C++) is not among the sources; only its documentation and a test
  that calls it are. The definitions of this section follow the specification of the type
  grammar and of the wire format for typed values.
\<close>

text \<open>
  Modelled from the spec: the type expressions of AuxData (the type grammar of the codec is
  missing): the leaves and the five constructors.
\<close>

datatype ty =
    TBool
  | TInt8 | TInt16 | TInt32 | TInt64
  | TUInt8 | TUInt16 | TUInt32 | TUInt64
  | TFloat | TDouble
  | TString | TUUID | TAddr | TOffset
  | TSequence ty
  | TSet ty
  | TMapping ty ty
  | TTuple "ty list"
  | TVariant "ty list"

text \<open>
  Modelled from the spec: the values of AuxData (the value representation of the codec is
  missing). An integer is its two's-complement bit pattern, a \<open>float\<close> or \<open>double\<close> is
  its IEEE-754 binary32 or binary64 datum, a string is its UTF-8 bytes, a UUID is 16 raw
  bytes, an \<open>Offset\<close> is a UUID with a displacement, a set is a finite set of values, a
  mapping is a finite set of key-value pairs, and a variant value carries its zero-based
  tag.
\<close>

datatype val =
    VBool bool
  | VInt8 "8 word" | VInt16 "16 word" | VInt32 "32 word" | VInt64 "64 word"
  | VUInt8 "8 word" | VUInt16 "16 word" | VUInt32 "32 word" | VUInt64 "64 word"
  | VFloat "32 word" | VDouble "64 word"
  | VString "byte list" | VUUID "byte list" | VAddr "64 word" | VOffset "byte list" "64 word"
  | VSequence "val list"
  | VSet "val fset"
  | VMapping "(val \<times> val) fset"
  | VTuple "val list"
  | VVariant nat val

text \<open>
  Modelled from the spec: the \<open>n\<close> little-endian bytes of a number (the integer writer of
  the codec is missing).
\<close>

fun le_bytes :: "nat \<Rightarrow> nat \<Rightarrow> byte list" where
  "le_bytes 0 x = []"
| "le_bytes (Suc n) x = of_nat (x mod 256) # le_bytes n (x div 256)"

text \<open>
  Modelled from the spec: the number that little-endian bytes stand for (the integer reader
  of the codec is missing).
\<close>

fun le_nat :: "byte list \<Rightarrow> nat" where
  "le_nat [] = 0"
| "le_nat (b # bs) = unat b + 256 * le_nat bs"

text \<open>
  Modelled from the spec: the wire form of a fixed-width integer, little-endian in as many
  bytes as its width (the integer writer of the codec is missing).
\<close>

definition enc_word :: "'a::len word \<Rightarrow> byte list" where
  "enc_word w = le_bytes (LENGTH('a) div 8) (unat w)"

text \<open>
  Modelled from the spec: reading a fixed-width integer from the front of a byte sequence
  (the integer reader of the codec is missing).
\<close>

definition dec_word :: "byte list \<Rightarrow> ('a::len word \<times> byte list) option" where
  "dec_word bs = map_option (\<lambda>(p, r). (of_nat (le_nat p), r)) (take_bytes (LENGTH('a) div 8) bs)"

text \<open>
  Modelled from the spec: the \<open>uint64\<close> that precedes a string, a sequence, a set or a
  mapping, and the tag of a variant (the codec is missing).
\<close>

definition enc_count :: "nat \<Rightarrow> byte list" where
  "enc_count n = le_bytes 8 n"

text \<open>
  Modelled from the spec: reading such a \<open>uint64\<close> (the codec is missing).
\<close>

definition dec_count :: "byte list \<Rightarrow> (nat \<times> byte list) option" where
  "dec_count bs = map_option (\<lambda>(p, r). (le_nat p, r)) (take_bytes 8 bs)"

text \<open>
  Modelled from the spec: decoding \<open>n\<close> elements one after the other, as the decoder of a
  sequence, a set or a mapping does after the count (the codec is missing).
\<close>

primrec repeat :: "(byte list \<Rightarrow> ('a \<times> byte list) option) \<Rightarrow> nat \<Rightarrow> byte list \<Rightarrow> ('a list \<times> byte list) option" where
  "repeat f 0 bs = Some ([], bs)"
| "repeat f (Suc n) bs =
     (case f bs of
        None \<Rightarrow> None
      | Some (x, r) \<Rightarrow>
          (case repeat f n r of None \<Rightarrow> None | Some (xs, r') \<Rightarrow> Some (x # xs, r')))"

text \<open>
  Modelled from the spec: decoding the fields of a tuple in declared order, each with its own
  decoder (the codec is missing).
\<close>

primrec chain :: "(byte list \<Rightarrow> ('a \<times> byte list) option) list \<Rightarrow> byte list \<Rightarrow> ('a list \<times> byte list) option" where
  "chain [] bs = Some ([], bs)"
| "chain (f # fs) bs =
     (case f bs of
        None \<Rightarrow> None
      | Some (x, r) \<Rightarrow>
          (case chain fs r of None \<Rightarrow> None | Some (xs, r') \<Rightarrow> Some (x # xs, r')))"

text \<open>
  Modelled from the spec: decoding one pair of a mapping, the key and then the value (the
  codec is missing).
\<close>

definition pair_decoder ::
  "(byte list \<Rightarrow> ('a \<times> byte list) option) \<Rightarrow> (byte list \<Rightarrow> ('b \<times> byte list) option) \<Rightarrow>
   byte list \<Rightarrow> (('a \<times> 'b) \<times> byte list) option" where
  "pair_decoder f g bs =
     (case f bs of
        None \<Rightarrow> None
      | Some (k, r) \<Rightarrow> (case g r of None \<Rightarrow> None | Some (v, r') \<Rightarrow> Some ((k, v), r')))"

text \<open>
  Modelled from the spec: \<open>encode(T, v)\<close> (the encoder is missing). It fails when the value
  is not of the type. Set elements are written in ascending order of their encoded form,
  mapping pairs in ascending order of the encoded key, tuple fields in declared order
  without a count, and a variant as its tag followed by the chosen field.
\<close>

function (sequential) encode :: "ty \<Rightarrow> val \<Rightarrow> byte list option" where
  "encode TBool v = (case v of VBool b \<Rightarrow> Some [if b then 1 else 0] | _ \<Rightarrow> None)"
| "encode TInt8 v = (case v of VInt8 w \<Rightarrow> Some (enc_word w) | _ \<Rightarrow> None)"
| "encode TInt16 v = (case v of VInt16 w \<Rightarrow> Some (enc_word w) | _ \<Rightarrow> None)"
| "encode TInt32 v = (case v of VInt32 w \<Rightarrow> Some (enc_word w) | _ \<Rightarrow> None)"
| "encode TInt64 v = (case v of VInt64 w \<Rightarrow> Some (enc_word w) | _ \<Rightarrow> None)"
| "encode TUInt8 v = (case v of VUInt8 w \<Rightarrow> Some (enc_word w) | _ \<Rightarrow> None)"
| "encode TUInt16 v = (case v of VUInt16 w \<Rightarrow> Some (enc_word w) | _ \<Rightarrow> None)"
| "encode TUInt32 v = (case v of VUInt32 w \<Rightarrow> Some (enc_word w) | _ \<Rightarrow> None)"
| "encode TUInt64 v = (case v of VUInt64 w \<Rightarrow> Some (enc_word w) | _ \<Rightarrow> None)"
| "encode TFloat v = (case v of VFloat w \<Rightarrow> Some (enc_word w) | _ \<Rightarrow> None)"
| "encode TDouble v = (case v of VDouble w \<Rightarrow> Some (enc_word w) | _ \<Rightarrow> None)"
| "encode TString v =
     (case v of
        VString s \<Rightarrow> if fits_count (length s) then Some (enc_count (length s) @ s) else None
      | _ \<Rightarrow> None)"
| "encode TUUID v = (case v of VUUID u \<Rightarrow> if length u = 16 then Some u else None | _ \<Rightarrow> None)"
| "encode TAddr v = (case v of VAddr w \<Rightarrow> Some (enc_word w) | _ \<Rightarrow> None)"
| "encode TOffset v =
     (case v of
        VOffset u d \<Rightarrow> if length u = 16 then Some (u @ enc_word d) else None
      | _ \<Rightarrow> None)"
| "encode (TSequence T) v =
     (case v of
        VSequence xs \<Rightarrow>
          (case those (map (encode T) xs) of
             None \<Rightarrow> None
           | Some es \<Rightarrow> if fits_count (length es) then Some (enc_count (length es) @ concat es) else None)
      | _ \<Rightarrow> None)"
| "encode (TSet T) v =
     (case v of
        VSet S \<Rightarrow>
          if None |\<in>| encode T |`| S then None
          else (let es = sorted_list_of_fset ((\<lambda>x. the (encode T x)) |`| S)
                in if fits_count (length es) then Some (enc_count (length es) @ concat es) else None)
      | _ \<Rightarrow> None)"
| "encode (TMapping K V) v =
     (case v of
        VMapping S \<Rightarrow>
          if None |\<in>| (\<lambda>(k, x). encode K k) |`| S \<or> None |\<in>| (\<lambda>(k, x). encode V x) |`| S then None
          else (let es = sorted_list_of_fset ((\<lambda>(k, x). (the (encode K k), the (encode V x))) |`| S)
                in if fits_count (length es)
                   then Some (enc_count (length es) @ concat (map (\<lambda>(a, b). a @ b) es))
                   else None)
      | _ \<Rightarrow> None)"
| "encode (TTuple Ts) v =
     (case v of
        VTuple xs \<Rightarrow>
          if length xs = length Ts
          then map_option concat (those (map (\<lambda>(T, x). encode T x) (zip Ts xs)))
          else None
      | _ \<Rightarrow> None)"
| "encode (TVariant Ts) v =
     (case v of
        VVariant i x \<Rightarrow>
          if i < length Ts \<and> fits_count i
          then map_option (\<lambda>e. enc_count i @ e) (encode (Ts ! i) x)
          else None
      | _ \<Rightarrow> None)"
  by pat_completeness auto
termination
proof (relation "measure (\<lambda>(T, v). size T)", goal_cases)
  have e: "size T < Suc (size_list size Ts)" if "T \<in> set Ts" for T :: ty and Ts
    using size_list_estimation' [OF that order_refl, of size] by simp
  {
    case 9
    then show ?case by (auto dest!: set_zip_leftD intro: e)
  next
    case 10
    then show ?case by (auto intro: e)
  }
qed simp_all

text \<open>
  Modelled from the spec: what it is for a value to be of a type (the type check of the
  codec is missing). Counts fit a \<open>uint64\<close>, a UUID has 16 bytes, the keys of a
  mapping are unique, a tuple has one value per declared field, and the tag of a variant
  names one of its alternatives.
\<close>

function (sequential) has_type :: "ty \<Rightarrow> val \<Rightarrow> bool" where
  "has_type TBool v = (case v of VBool b \<Rightarrow> True | _ \<Rightarrow> False)"
| "has_type TInt8 v = (case v of VInt8 w \<Rightarrow> True | _ \<Rightarrow> False)"
| "has_type TInt16 v = (case v of VInt16 w \<Rightarrow> True | _ \<Rightarrow> False)"
| "has_type TInt32 v = (case v of VInt32 w \<Rightarrow> True | _ \<Rightarrow> False)"
| "has_type TInt64 v = (case v of VInt64 w \<Rightarrow> True | _ \<Rightarrow> False)"
| "has_type TUInt8 v = (case v of VUInt8 w \<Rightarrow> True | _ \<Rightarrow> False)"
| "has_type TUInt16 v = (case v of VUInt16 w \<Rightarrow> True | _ \<Rightarrow> False)"
| "has_type TUInt32 v = (case v of VUInt32 w \<Rightarrow> True | _ \<Rightarrow> False)"
| "has_type TUInt64 v = (case v of VUInt64 w \<Rightarrow> True | _ \<Rightarrow> False)"
| "has_type TFloat v = (case v of VFloat w \<Rightarrow> True | _ \<Rightarrow> False)"
| "has_type TDouble v = (case v of VDouble w \<Rightarrow> True | _ \<Rightarrow> False)"
| "has_type TAddr v = (case v of VAddr w \<Rightarrow> True | _ \<Rightarrow> False)"
| "has_type TString v = (case v of VString s \<Rightarrow> fits_count (length s) | _ \<Rightarrow> False)"
| "has_type TUUID v = (case v of VUUID u \<Rightarrow> length u = 16 | _ \<Rightarrow> False)"
| "has_type TOffset v = (case v of VOffset u d \<Rightarrow> length u = 16 | _ \<Rightarrow> False)"
| "has_type (TSequence T) v =
     (case v of
        VSequence xs \<Rightarrow> fits_count (length xs) \<and> (\<forall>x\<in>set xs. has_type T x)
      | _ \<Rightarrow> False)"
| "has_type (TSet T) v =
     (case v of
        VSet S \<Rightarrow> fits_count (fcard S) \<and> (\<forall>x\<in>fset S. has_type T x)
      | _ \<Rightarrow> False)"
| "has_type (TMapping K V) v =
     (case v of
        VMapping S \<Rightarrow>
          fits_count (fcard S) \<and>
          (\<forall>p\<in>fset S. has_type K (fst p) \<and> has_type V (snd p)) \<and>
          (\<forall>p\<in>fset S. \<forall>q\<in>fset S. fst p = fst q \<longrightarrow> p = q)
      | _ \<Rightarrow> False)"
| "has_type (TTuple Ts) v =
     (case v of
        VTuple xs \<Rightarrow> length xs = length Ts \<and> (\<forall>p\<in>set (zip Ts xs). has_type (fst p) (snd p))
      | _ \<Rightarrow> False)"
| "has_type (TVariant Ts) v =
     (case v of
        VVariant i x \<Rightarrow> if i < length Ts \<and> fits_count i then has_type (Ts ! i) x else False
      | _ \<Rightarrow> False)"
  by pat_completeness auto
termination
proof (relation "measure (\<lambda>(T, v). size T)", goal_cases)
  have e: "size T < Suc (size_list size Ts)" if "T \<in> set Ts" for T :: ty and Ts
    using size_list_estimation' [OF that order_refl, of size] by simp
  {
    case 6
    then show ?case by (auto split: prod.splits dest: set_zip_leftD intro: e)
  next
    case 7
    then show ?case by (auto intro: e)
  }
qed simp_all

text \<open>
  Modelled from the spec: the decoder (missing), reading a value of a type from the front
  of a byte sequence and returning what follows it. Missing bytes, a \<open>bool\<close> byte other
  than \<open>0x00\<close> and \<open>0x01\<close>, a variant tag out of range, a duplicate set element and a
  duplicate mapping key are failures. A set is unique and ordered on the wire, and a
  successful decode yields a value whose re-encoding is the stored payload, so set
  elements and mapping keys that do not come in ascending order of their encoded form
  are a failure as well.
\<close>

function (sequential) decode_from :: "ty \<Rightarrow> byte list \<Rightarrow> (val \<times> byte list) option" where
  "decode_from TBool bs =
     (case bs of
        [] \<Rightarrow> None
      | b # r \<Rightarrow> if b = 0 then Some (VBool False, r) else if b = 1 then Some (VBool True, r) else None)"
| "decode_from TInt8 bs = map_option (apfst VInt8) (dec_word bs)"
| "decode_from TInt16 bs = map_option (apfst VInt16) (dec_word bs)"
| "decode_from TInt32 bs = map_option (apfst VInt32) (dec_word bs)"
| "decode_from TInt64 bs = map_option (apfst VInt64) (dec_word bs)"
| "decode_from TUInt8 bs = map_option (apfst VUInt8) (dec_word bs)"
| "decode_from TUInt16 bs = map_option (apfst VUInt16) (dec_word bs)"
| "decode_from TUInt32 bs = map_option (apfst VUInt32) (dec_word bs)"
| "decode_from TUInt64 bs = map_option (apfst VUInt64) (dec_word bs)"
| "decode_from TFloat bs = map_option (apfst VFloat) (dec_word bs)"
| "decode_from TDouble bs = map_option (apfst VDouble) (dec_word bs)"
| "decode_from TAddr bs = map_option (apfst VAddr) (dec_word bs)"
| "decode_from TString bs =
     (case dec_count bs of
        None \<Rightarrow> None
      | Some (n, r) \<Rightarrow> map_option (apfst VString) (take_bytes n r))"
| "decode_from TUUID bs = map_option (apfst VUUID) (take_bytes 16 bs)"
| "decode_from TOffset bs =
     (case take_bytes 16 bs of
        None \<Rightarrow> None
      | Some (u, r) \<Rightarrow> map_option (apfst (VOffset u)) (dec_word r))"
| "decode_from (TSequence T) bs =
     (case dec_count bs of
        None \<Rightarrow> None
      | Some (n, r) \<Rightarrow> map_option (apfst VSequence) (repeat (decode_from T) n r))"
| "decode_from (TSet T) bs =
     (case dec_count bs of
        None \<Rightarrow> None
      | Some (n, r) \<Rightarrow>
          (case repeat (decode_from T) n r of
             None \<Rightarrow> None
           | Some (xs, r') \<Rightarrow>
               if distinct xs \<and>
                  sorted_wrt (<) (map (\<lambda>x. the (encode T x)) xs)
               then Some (VSet (fset_of_list xs), r')
               else None))"
| "decode_from (TMapping K V) bs =
     (case dec_count bs of
        None \<Rightarrow> None
      | Some (n, r) \<Rightarrow>
          (case repeat (pair_decoder (decode_from K) (decode_from V)) n r of
             None \<Rightarrow> None
           | Some (kvs, r') \<Rightarrow>
               if distinct (map fst kvs) \<and>
                  sorted_wrt (<) (map (\<lambda>p. the (encode K (fst p))) kvs)
               then Some (VMapping (fset_of_list kvs), r')
               else None))"
| "decode_from (TTuple Ts) bs =
     map_option (apfst VTuple) (chain (map decode_from Ts) bs)"
| "decode_from (TVariant Ts) bs =
     (case dec_count bs of
        None \<Rightarrow> None
      | Some (i, r) \<Rightarrow>
          if i < length Ts then map_option (apfst (VVariant i)) (decode_from (Ts ! i) r)
          else None)"
  by pat_completeness auto
termination
proof (relation "measure (\<lambda>(T, bs). size T)", goal_cases)
  have e: "size T < Suc (size_list size Ts)" if "T \<in> set Ts" for T :: ty and Ts
    using size_list_estimation' [OF that order_refl, of size] by simp
  {
    case 6
    then show ?case by (auto intro: e)
  next
    case 7
    then show ?case by (auto intro: e)
  }
qed simp_all

text \<open>
  Modelled from the spec: \<open>decode(T, bytes)\<close> (the decoder is missing): decoding is strict,
  so trailing bytes are a failure as well.
\<close>

definition decode :: "ty \<Rightarrow> byte list \<Rightarrow> val option" where
  "decode T bs =
     (case decode_from T bs of
        None \<Rightarrow> None
      | Some (v, r) \<Rightarrow> if r = [] then Some v else None)"

text \<open>
  Modelled from the spec: the encoded form of a value that can be encoded (the encoder is
  missing).
\<close>

definition encoded :: "ty \<Rightarrow> val \<Rightarrow> byte list" where
  "encoded T x = the (encode T x)"

text \<open>
  Modelled from the spec: the value at the front of a byte sequence that can be decoded
  (the decoder is missing).
\<close>

definition decoded :: "ty \<Rightarrow> byte list \<Rightarrow> val" where
  "decoded T e = fst (the (decode_from T e))"

text \<open>
  Modelled from the spec: a value round-trips when it has an encoding and decoding that
  encoding, whatever follows it, gives the value back and leaves what follows (the codec
  is missing).
\<close>

definition roundtrips :: "ty \<Rightarrow> val \<Rightarrow> bool" where
  "roundtrips T x \<longleftrightarrow>
     (\<exists>e. encode T x = Some e \<and> (\<forall>r. decode_from T (e @ r) = Some (x, r)))"

text \<open>
  Modelled from the spec: a type re-encodes when everything its decoder accepts
  is the encoding of the decoded value (the codec is missing).
\<close>

definition reencodes :: "ty \<Rightarrow> bool" where
  "reencodes T \<longleftrightarrow>
     (\<forall>bs v r. decode_from T bs = Some (v, r) \<longrightarrow> (\<exists>e. bs = e @ r \<and> encode T v = Some e))"

section \<open>Properties of the symbol indices\<close>

lemma ordered_insert_eq:
  "ordered_insert key x xs =
     takeWhile (\<lambda>y. key y \<le> key x) xs @ x # dropWhile (\<lambda>y. key y \<le> key x) xs"
  by (simp add: ordered_insert_def upper_bound_def Let_def
        takeWhile_eq_take [symmetric] dropWhile_eq_drop [symmetric])

lemma set_ordered_insert: "set (ordered_insert key x xs) = insert x (set xs)"
proof -
  have "set (takeWhile (\<lambda>y. key y \<le> key x) xs) \<union> set (dropWhile (\<lambda>y. key y \<le> key x) xs) = set xs"
    by (metis set_append takeWhile_dropWhile_id)
  then show ?thesis by (auto simp: ordered_insert_eq)
qed

lemma distinct_ordered_insert:
  "distinct xs \<Longrightarrow> x \<notin> set xs \<Longrightarrow> distinct (ordered_insert key x xs)"
proof -
  assume d: "distinct xs" and n: "x \<notin> set xs"
  let ?P = "\<lambda>y. key y \<le> key x"
  have "distinct (takeWhile ?P xs @ dropWhile ?P xs)" using d by simp
  then have "distinct (takeWhile ?P xs)" "distinct (dropWhile ?P xs)"
    "set (takeWhile ?P xs) \<inter> set (dropWhile ?P xs) = {}"
    unfolding distinct_append by blast+
  moreover have "x \<notin> set (takeWhile ?P xs)" "x \<notin> set (dropWhile ?P xs)"
    using n by (auto dest: set_takeWhileD set_dropWhileD)
  ultimately show ?thesis by (auto simp: ordered_insert_eq)
qed

lemma sorted_dropWhile_gt:
  "sorted (map key xs) \<Longrightarrow> y \<in> set (dropWhile (\<lambda>y. key y \<le> k) xs) \<Longrightarrow> k < key y"
  by (induction xs) (auto split: if_splits)

lemma sorted_ordered_insert:
  assumes "sorted (map key xs)"
  shows "sorted (map key (ordered_insert key x xs))"
proof -
  let ?P = "\<lambda>y. key y \<le> key x"
  have "sorted (map key (takeWhile ?P xs @ dropWhile ?P xs))" using assms by simp
  then have s: "sorted (map key (takeWhile ?P xs))" "sorted (map key (dropWhile ?P xs))"
    unfolding map_append sorted_append by blast+
  have a: "\<forall>y\<in>set (takeWhile ?P xs). key y \<le> key x" by (auto dest: set_takeWhileD)
  have b: "\<forall>y\<in>set (dropWhile ?P xs). key x \<le> key y"
    using sorted_dropWhile_gt [OF assms] by (auto intro: less_imp_le)
  show ?thesis
    using s a b by (auto simp: ordered_insert_eq sorted_append intro: order_trans)
qed

lemma range_elems_take:
  "b \<le> e \<Longrightarrow> e \<le> length xs \<Longrightarrow> range_elems xs b e = Some (take (e - b) (drop b xs))"
proof (induction xs b e rule: range_elems.induct)
  case (1 xs b e)
  show ?case
  proof (cases "b = e")
    case True
    then show ?thesis by (simp add: range_elems.simps [of xs e e])
  next
    case False
    with "1.prems" have lt: "b < e" "b < length xs" by auto
    then have "range_elems xs (Suc b) e = Some (take (e - Suc b) (drop (Suc b) xs))"
      using "1.IH" "1.prems" False by simp
    moreover have "take (e - b) (drop b xs) = xs ! b # take (e - Suc b) (drop (Suc b) xs)"
      using lt by (metis Cons_nth_drop_Suc Suc_diff_Suc take_Suc_Cons)
    ultimately show ?thesis using lt False by (simp add: range_elems.simps [of xs b e])
  qed
qed

lemma range_elems_past:
  "e < b \<Longrightarrow> range_elems xs b e = None"
proof (induction xs b e rule: range_elems.induct)
  case (1 xs b e)
  then show ?case by (simp add: range_elems.simps [of xs b e])
qed

lemma lower_bound_le_length: "lower_bound key xs k \<le> length xs"
  by (simp add: lower_bound_def length_takeWhile_le)

lemma upper_bound_le_length: "upper_bound key xs k \<le> length xs"
  by (simp add: upper_bound_def length_takeWhile_le)

lemma lower_bound_Nil [simp]: "lower_bound key [] k = 0"
  by (simp add: lower_bound_def)

lemma upper_bound_Nil [simp]: "upper_bound key [] k = 0"
  by (simp add: upper_bound_def)

lemma lower_bound_Cons:
  "lower_bound key (x # xs) k = (if key x < k then Suc (lower_bound key xs k) else 0)"
  by (simp add: lower_bound_def)

lemma upper_bound_Cons:
  "upper_bound key (x # xs) k = (if key x \<le> k then Suc (upper_bound key xs k) else 0)"
  by (simp add: upper_bound_def)

lemma lower_bound_mono: "lo \<le> hi \<Longrightarrow> lower_bound key xs lo \<le> lower_bound key xs hi"
  by (induction xs) (auto simp: lower_bound_Cons)

lemma lower_le_upper_bound: "lower_bound key xs k \<le> upper_bound key xs k"
  by (induction xs) (auto simp: lower_bound_Cons upper_bound_Cons)

lemma sorted_lower_bound_0:
  "sorted (map key xs) \<Longrightarrow> \<forall>x\<in>set xs. k \<le> key x \<Longrightarrow> lower_bound key xs k = 0"
  by (cases xs) (auto simp: lower_bound_Cons)

lemma lower_bound_range:
  "sorted (map key xs) \<Longrightarrow> lo \<le> hi \<Longrightarrow>
   take (lower_bound key xs hi - lower_bound key xs lo) (drop (lower_bound key xs lo) xs)
     = filter (\<lambda>x. lo \<le> key x \<and> key x < hi) xs"
proof (induction xs)
  case Nil
  then show ?case by simp
next
  case (Cons x xs)
  show ?case
  proof (cases "key x < lo")
    case True
    then show ?thesis using Cons by (auto simp: lower_bound_Cons)
  next
    case False
    then have ge: "\<forall>y\<in>set xs. lo \<le> key y" using Cons.prems by auto
    then have z: "lower_bound key xs lo = 0" by (cases xs) (auto simp: lower_bound_Cons)
    show ?thesis
    proof (cases "key x < hi")
      case True
      then show ?thesis using Cons False z by (auto simp: lower_bound_Cons)
    next
      case False
      then have "\<forall>y\<in>set xs. \<not> key y < hi" using Cons.prems by auto
      then have "filter (\<lambda>x. lo \<le> key x \<and> key x < hi) xs = []"
        by (auto simp: filter_empty_conv)
      then show ?thesis using False \<open>\<not> key x < lo\<close> by (simp add: lower_bound_Cons)
    qed
  qed
qed

lemma equal_range_filter:
  "sorted (map key xs) \<Longrightarrow>
   take (upper_bound key xs k - lower_bound key xs k) (drop (lower_bound key xs k) xs)
     = filter (\<lambda>x. key x = k) xs"
proof (induction xs)
  case Nil
  then show ?case by simp
next
  case (Cons x xs)
  show ?case
  proof (cases "key x < k")
    case True
    then show ?thesis using Cons by (auto simp: lower_bound_Cons upper_bound_Cons)
  next
    case False
    then have ge: "\<forall>y\<in>set xs. k \<le> key y" using Cons.prems by auto
    then have z: "lower_bound key xs k = 0" by (cases xs) (auto simp: lower_bound_Cons)
    show ?thesis
    proof (cases "key x = k")
      case True
      then show ?thesis using Cons z by (auto simp: lower_bound_Cons upper_bound_Cons)
    next
      case False
      then have "\<forall>y\<in>set xs. key y \<noteq> k" using Cons.prems \<open>\<not> key x < k\<close> by auto
      then have "filter (\<lambda>x. key x = k) xs = []"
        by (auto simp: filter_empty_conv)
      then show ?thesis using False \<open>\<not> key x < k\<close> by (simp add: lower_bound_Cons upper_bound_Cons)
    qed
  qed
qed

lemma getAddress_setParent [simp]: "getAddress (setParent S M Obs st) = getAddress st"
  by (rule ext) (simp add: getAddress_def setParent_def)

lemma getName_setParent [simp]: "getName (setParent S M Obs st) = getName st"
  by (rule ext) (simp add: getName_def setParent_def)

lemma getModule_setParent [simp]:
  "getModule (setParent S M Obs st) S' = (if S' = S then M else getModule st S')"
  by (simp add: getModule_def setParent_def)

lemma modules_setParent [simp]: "modules (setParent S M Obs st) = modules st"
  by (simp add: setParent_def)

lemma getAddress_set_Symbols [simp]: "getAddress (set_Symbols M C st) = getAddress st"
  by (rule ext) (simp add: getAddress_def set_Symbols_def)

lemma getName_set_Symbols [simp]: "getName (set_Symbols M C st) = getName st"
  by (rule ext) (simp add: getName_def set_Symbols_def)

lemma getModule_set_Symbols [simp]: "getModule (set_Symbols M C st) = getModule st"
  by (rule ext) (simp add: getModule_def set_Symbols_def)

lemma Symbols_set_Symbols [simp]:
  "Symbols (modules (set_Symbols M C st) M') = (if M' = M then C else Symbols (modules st M'))"
  by (simp add: set_Symbols_def)

lemma symbolset_inv_setParent [simp]:
  "symbolset_inv (setParent S M Obs st) C = symbolset_inv st C"
  by (simp add: symbolset_inv_def)

lemma symbolset_inv_set_Symbols [simp]:
  "symbolset_inv (set_Symbols M C' st) C = symbolset_inv st C"
  by (simp add: symbolset_inv_def)

lemma symbolset_inv_erase:
  assumes "symbolset_inv st C"
  shows "symbolset_inv st (erase S C)"
  using assms
  by (auto simp: symbolset_inv_def erase_def sorted_map_remove1)

lemma by_pointer_erase [simp]: "by_pointer (erase S C) = by_pointer C - {S}"
  by (simp add: erase_def)

lemma symbolset_inv_emplace:
  assumes "symbolset_inv st C"
  shows "symbolset_inv st (emplace st S C)"
  using assms
  by (auto simp: symbolset_inv_def emplace_def set_ordered_insert
        distinct_ordered_insert sorted_ordered_insert)

lemma by_pointer_emplace [simp]: "by_pointer (emplace st S C) = insert S (by_pointer C)"
  by (auto simp: emplace_def)

lemma removeSymbol_absent:
  "S \<notin> by_pointer (Symbols (modules st M)) \<Longrightarrow> removeSymbol M S st = (False, st)"
  by (simp add: removeSymbol_def)

lemma removeSymbol_present:
  "S \<in> by_pointer (Symbols (modules st M)) \<Longrightarrow>
   removeSymbol M S st =
     (True, setParent S None None (set_Symbols M (erase S (Symbols (modules st M))) st))"
  by (simp add: removeSymbol_def)

lemma state_inv_member:
  "state_inv st \<Longrightarrow> (S \<in> by_pointer (Symbols (modules st M))) = (getModule st S = Some M)"
  by (simp add: state_inv_def parent_inv_def)

lemma state_inv_removeSymbol:
  assumes "state_inv st"
  shows "state_inv (snd (removeSymbol M S st))"
proof (cases "S \<in> by_pointer (Symbols (modules st M))")
  case False
  then show ?thesis using assms by (simp add: removeSymbol_absent)
next
  case True
  let ?st' = "setParent S None None (set_Symbols M (erase S (Symbols (modules st M))) st)"
  have par: "getModule st S = Some M" using assms True by (simp add: state_inv_member)
  have other: "\<And>M'. M' \<noteq> M \<Longrightarrow> S \<notin> by_pointer (Symbols (modules st M'))"
    using par by (simp add: state_inv_member [OF assms])
  have "symbolset_inv ?st' (Symbols (modules ?st' M'))" for M'
    using assms by (simp add: state_inv_def symbolset_inv_erase)
  moreover have "parent_inv ?st'"
    unfolding parent_inv_def
  proof (intro allI)
    fix S' M'
    show "(getModule ?st' S' = Some M') = (S' \<in> by_pointer (Symbols (modules ?st' M')))"
      using par by (cases "S' = S") (simp_all add: state_inv_member [OF assms])
  qed
  ultimately show ?thesis using True by (simp add: removeSymbol_present state_inv_def)
qed


lemma addSymbol_unfold:
  "state_inv st \<Longrightarrow>
   \<exists>st1. state_inv st1 \<and> getModule st1 S = None \<and> getAddress st1 = getAddress st \<and> getName st1 = getName st \<and>
     (\<forall>M'. by_pointer (Symbols (modules st1 M')) = by_pointer (Symbols (modules st M')) - {S}) \<and>
     (\<forall>S'. S' \<noteq> S \<longrightarrow> getModule st1 S' = getModule st S') \<and>
     snd (addSymbol M S st) =
       setParent S (Some M) (Some M) (set_Symbols M (emplace st1 S (Symbols (modules st1 M))) st1)"
proof (cases "getModule st S")
  case None
  assume inv: "state_inv st"
  then have "\<And>M'. S \<notin> by_pointer (Symbols (modules st M'))"
    using None by (simp add: state_inv_member)
  then show ?thesis using None inv
    by (intro exI [of _ st]) (simp add: addSymbol_def Let_def)
next
  case (Some M0)
  assume inv: "state_inv st"
  then have mem: "S \<in> by_pointer (Symbols (modules st M0))"
    using Some by (simp add: state_inv_member)
  have other: "\<And>M'. M' \<noteq> M0 \<Longrightarrow> S \<notin> by_pointer (Symbols (modules st M'))"
    using Some by (simp add: state_inv_member [OF inv])
  let ?st1 = "snd (removeSymbol M0 S st)"
  have "state_inv ?st1" using inv by (rule state_inv_removeSymbol)
  moreover have "\<forall>M'. by_pointer (Symbols (modules ?st1 M')) = by_pointer (Symbols (modules st M')) - {S}"
    using mem other by (auto simp: removeSymbol_present)
  ultimately show ?thesis using Some mem
    by (intro exI [of _ ?st1]) (simp add: addSymbol_def Let_def removeSymbol_present)
qed

lemma state_inv_emplace_setParent:
  assumes inv: "state_inv st1" and np: "getModule st1 S = None"
  shows "state_inv (setParent S (Some M) (Some M)
           (set_Symbols M (emplace st1 S (Symbols (modules st1 M))) st1))"
proof -
  let ?st' = "setParent S (Some M) (Some M) (set_Symbols M (emplace st1 S (Symbols (modules st1 M))) st1)"
  have nomem: "\<And>M'. S \<notin> by_pointer (Symbols (modules st1 M'))"
    using np by (simp add: state_inv_member [OF inv])
  have "symbolset_inv ?st' (Symbols (modules ?st' M'))" for M'
    using inv by (simp add: state_inv_def symbolset_inv_emplace)
  moreover have "parent_inv ?st'"
    unfolding parent_inv_def
  proof (intro allI)
    fix S' M'
    show "(getModule ?st' S' = Some M') = (S' \<in> by_pointer (Symbols (modules ?st' M')))"
      using np by (cases "S' = S") (auto simp: state_inv_member [OF inv])
  qed
  ultimately show ?thesis by (simp add: state_inv_def)
qed

lemma state_inv_addSymbol:
  assumes "state_inv st"
  shows "state_inv (snd (addSymbol M S st))"
proof -
  from addSymbol_unfold [OF assms, of S M] obtain st1 where
    "state_inv st1" "getModule st1 S = None"
    "snd (addSymbol M S st) =
       setParent S (Some M) (Some M) (set_Symbols M (emplace st1 S (Symbols (modules st1 M))) st1)"
    by blast
  then show ?thesis by (simp add: state_inv_emplace_setParent)
qed

lemma state_inv_init: "state_inv (init_state names addrs)"
  by (simp add: state_inv_def symbolset_inv_def parent_inv_def init_state_def
        empty_SymbolSet_def getModule_def)

lemma reachable_state_inv: "reachable st \<Longrightarrow> state_inv st"
  by (induction rule: reachable.induct)
     (simp_all add: state_inv_init state_inv_addSymbol state_inv_removeSymbol)

lemma reachable_symbolset_inv: "reachable st \<Longrightarrow> symbolset_inv st (Symbols (modules st M))"
  using reachable_state_inv by (simp add: state_inv_def)

lemma reachable_scenario: "reachable scenario_state"
  unfolding scenario_state_def by (intro reachable.intros)

lemma state_inv_scenario: "state_inv scenario_state"
  unfolding scenario_state_def by (intro state_inv_addSymbol state_inv_init)

lemma range_elems_subset:
  "range_elems xs b e = Some ys \<Longrightarrow> set ys \<subseteq> set (drop b xs)"
proof (induction xs b e arbitrary: ys rule: range_elems.induct)
  case (1 xs b e)
  show ?case
  proof (cases "b = e")
    case True
    with "1.prems" show ?thesis by (simp add: range_elems.simps [of xs e e])
  next
    case False
    with "1.prems" have lt: "b < length xs"
      by (simp add: range_elems.simps [of xs b e] split: if_splits)
    with "1.prems" False obtain zs where
      zs: "range_elems xs (Suc b) e = Some zs" "ys = xs ! b # zs"
      by (auto simp add: range_elems.simps [of xs b e])
    have "set zs \<subseteq> set (drop (Suc b) xs)" using "1.IH" False lt zs by simp
    moreover have "drop b xs = xs ! b # drop (Suc b) xs" using lt by (simp add: Cons_nth_drop_Suc)
    ultimately show ?thesis using zs by auto
  qed
qed

lemma sorted_drop_lower_bound:
  "sorted (map key xs) \<Longrightarrow> x \<in> set (drop (lower_bound key xs k) xs) \<Longrightarrow> k \<le> key x"
proof (induction xs)
  case Nil
  then show ?case by simp
next
  case (Cons y ys)
  show ?case
  proof (cases "key y < k")
    case True
    then show ?thesis using Cons by (simp add: lower_bound_Cons)
  next
    case False
    then have "\<forall>z\<in>set (y # ys). k \<le> key z" using Cons.prems(1) by auto
    moreover have "x \<in> set (y # ys)" using Cons.prems(2) by (meson in_set_dropD)
    ultimately show ?thesis by blast
  qed
qed

lemma Some_le_iff: "(Some a \<le> x) = (\<exists>b. x = Some b \<and> a \<le> b)"
  by (cases x) simp_all

lemma less_Some_iff_range:
  "(Some lo \<le> x \<and> x < Some hi) = (\<exists>a. x = Some a \<and> lo \<le> a \<and> a < hi)"
  by (cases x) auto

lemma addSymbol_fst [simp]: "fst (addSymbol M S st) = S"
  by (simp add: addSymbol_def Let_def)

lemma addSymbol_attaches:
  assumes "state_inv st"
  shows "getModule (snd (addSymbol M S st)) S = Some M"
proof -
  from addSymbol_unfold [OF assms, of S M] obtain st1 where
    "snd (addSymbol M S st) =
       setParent S (Some M) (Some M) (set_Symbols M (emplace st1 S (Symbols (modules st1 M))) st1)"
    by blast
  then show ?thesis by simp
qed

lemma removeSymbol_detaches:
  assumes "state_inv st" and "fst (removeSymbol M S st)"
  shows "getModule (snd (removeSymbol M S st)) S = None"
proof -
  have "S \<in> by_pointer (Symbols (modules st M))"
    using assms(2) by (auto simp: removeSymbol_def Let_def split: if_splits)
  then show ?thesis by (simp add: removeSymbol_present)
qed

lemma removeSymbol_fst:
  "fst (removeSymbol M S st) = (S \<in> by_pointer (Symbols (modules st M)))"
  by (simp add: removeSymbol_def Let_def)

section \<open>Claims about Module\<close>

text \<open>
  Claim C4. In a module whose indices are consistent, iterating the range that
  \<open>findSymbols(N)\<close> returns always succeeds and yields exactly the symbols of the module
  whose name is \<open>N\<close>, each of them once: the result is the by-name index filtered by
  the name, it has no repetition, its elements are the module's symbols named \<open>N\<close>, and
  its length is their number. For a name that no symbol has, this is the empty range.
\<close>

theorem findSymbols_by_name_exact:
  assumes "symbolset_inv st (Symbols (modules st M))"
  shows "\<exists>xs. symbols_by_name_in st M (findSymbols_name st M N) = Some xs \<and>
           xs = filter (\<lambda>S. getName st S = N) (by_name (Symbols (modules st M))) \<and>
           distinct xs \<and>
           set xs = {S \<in> by_pointer (Symbols (modules st M)). getName st S = N} \<and>
           length xs = card {S \<in> by_pointer (Symbols (modules st M)). getName st S = N}"
proof -
  let ?idx = "by_name (Symbols (modules st M))"
  let ?xs = "filter (\<lambda>S. getName st S = N) ?idx"
  from assms have srt: "sorted (map (getName st) ?idx)" and d: "distinct ?idx"
    and s: "set ?idx = by_pointer (Symbols (modules st M))"
    by (simp_all add: symbolset_inv_def)
  have "symbols_by_name_in st M (findSymbols_name st M N) = Some ?xs"
    using equal_range_filter [OF srt, of N]
    by (simp add: symbols_by_name_in_def findSymbols_name_def equal_range_def
          range_elems_take lower_le_upper_bound upper_bound_le_length)
  moreover have dx: "distinct ?xs" using d by simp
  moreover have sx: "set ?xs = {S \<in> by_pointer (Symbols (modules st M)). getName st S = N}"
    using s by auto
  moreover have "length ?xs = card {S \<in> by_pointer (Symbols (modules st M)). getName st S = N}"
    using distinct_card [OF dx] unfolding sx by simp
  ultimately show ?thesis by blast
qed

theorem findSymbols_by_name_exact_witness:
  "symbolset_inv scenario_state (Symbols (modules scenario_state 0)) \<and>
   symbols_by_name_in scenario_state 0 (findSymbols_name scenario_state 0 ''start'') = Some [0, 2] \<and>
   symbols_by_name_in scenario_state 0 (findSymbols_name scenario_state 0 ''main'') = Some [1] \<and>
   symbols_by_name_in scenario_state 0 (findSymbols_name scenario_state 0 ''_nonexistent'') = Some [] \<and>
   card {S \<in> by_pointer (Symbols (modules scenario_state 0)). getName scenario_state S = ''start''} = 2"
proof -
  have inv: "symbolset_inv scenario_state (Symbols (modules scenario_state 0))"
    using state_inv_scenario by (simp add: state_inv_def)
  have a: "symbols_by_name_in scenario_state 0 (findSymbols_name scenario_state 0 ''start'') = Some [0, 2]"
    by code_simp
  have b: "symbols_by_name_in scenario_state 0 (findSymbols_name scenario_state 0 ''main'') = Some [1]"
    by code_simp
  have c: "symbols_by_name_in scenario_state 0 (findSymbols_name scenario_state 0 ''_nonexistent'') = Some []"
    by code_simp
  from findSymbols_by_name_exact [OF inv, where N = "''start''"] obtain xs where
    xs: "symbols_by_name_in scenario_state 0 (findSymbols_name scenario_state 0 ''start'') = Some xs"
      "length xs = card {S \<in> by_pointer (Symbols (modules scenario_state 0)). getName scenario_state S = ''start''}"
    by blast
  from xs(1) a have "xs = [0, 2]" by simp
  with xs(2)
  have "card {S \<in> by_pointer (Symbols (modules scenario_state 0)). getName scenario_state S = ''start''} = 2"
    by simp
  with inv a b c show ?thesis by simp
qed

text \<open>
  Claim C5 as stated fails when \<open>Lower\<close> is above \<open>Upper\<close>. In the three-symbol module
  the by-address index holds symbol 1, which has no address, then symbol 0 at \<open>0x1000\<close>
  and symbol 2 at \<open>0x2000\<close>. No address satisfies \<open>0x2000 \<le> A < 0x1000\<close>, yet
  \<open>findSymbols(0x2000, 0x1000)\<close> returns the iterator pair \<open>(2, 1)\<close>, whose begin lies
  behind its end: the pair is not an empty range, and walking it steps past \<open>end()\<close>.
\<close>

theorem findSymbols_range_reversed_bounds:
  "reachable scenario_state \<and>
   by_address (Symbols (modules scenario_state 0)) = [1, 0, 2] \<and>
   getAddress scenario_state 0 = Some 0x1000 \<and>
   findSymbols_range scenario_state 0 0x2000 0x1000 = (2, 1) \<and>
   symbols_by_addr_in scenario_state 0 (findSymbols_range scenario_state 0 0x2000 0x1000) = None \<and>
   symbols_by_addr_in scenario_state 0 (findSymbols_range scenario_state 0 0x2000 0x1000) \<noteq> Some []"
proof -
  have "by_address (Symbols (modules scenario_state 0)) = [1, 0, 2]" by code_simp
  moreover have "getAddress scenario_state 0 = Some 0x1000" by code_simp
  moreover have "findSymbols_range scenario_state 0 0x2000 0x1000 = (2, 1)" by code_simp
  moreover have
    "symbols_by_addr_in scenario_state 0 (findSymbols_range scenario_state 0 0x2000 0x1000) = None"
    by code_simp
  ultimately show ?thesis using reachable_scenario by simp
qed

text \<open>
  Claim C5, amended. In a module whose indices are consistent and for \<open>Lower \<le> Upper\<close>,
  iterating the range that \<open>findSymbols(Lower, Upper)\<close> returns always succeeds and yields
  exactly the symbols of the module whose address \<open>A\<close> is present and satisfies
  \<open>Lower \<le> A < Upper\<close>, each of them once; when no symbol matches, this is the empty range.
\<close>

theorem findSymbols_range_exact:
  assumes "symbolset_inv st (Symbols (modules st M))" and "Lower \<le> Upper"
  shows "\<exists>xs. symbols_by_addr_in st M (findSymbols_range st M Lower Upper) = Some xs \<and>
           xs = filter (\<lambda>S. \<exists>A. getAddress st S = Some A \<and> Lower \<le> A \<and> A < Upper)
                  (by_address (Symbols (modules st M))) \<and>
           distinct xs \<and>
           set xs = {S \<in> by_pointer (Symbols (modules st M)).
                       \<exists>A. getAddress st S = Some A \<and> Lower \<le> A \<and> A < Upper}"
proof -
  let ?idx = "by_address (Symbols (modules st M))"
  let ?P = "\<lambda>S. \<exists>A. getAddress st S = Some A \<and> Lower \<le> A \<and> A < Upper"
  from assms(1) have srt: "sorted (map (getAddress st) ?idx)" and d: "distinct ?idx"
    and s: "set ?idx = by_pointer (Symbols (modules st M))"
    by (simp_all add: symbolset_inv_def)
  have le: "Some Lower \<le> Some Upper" using assms(2) by simp
  have "symbols_by_addr_in st M (findSymbols_range st M Lower Upper) = Some (filter ?P ?idx)"
    using lower_bound_range [OF srt le]
    by (simp add: symbols_by_addr_in_def findSymbols_range_def Let_def range_elems_take
          lower_bound_mono [OF le] lower_bound_le_length less_Some_iff_range)
  moreover have "distinct (filter ?P ?idx)" using d by simp
  moreover have "set (filter ?P ?idx) = {S \<in> by_pointer (Symbols (modules st M)). ?P S}"
    using s by auto
  ultimately show ?thesis by blast
qed

theorem findSymbols_range_exact_witness:
  "symbolset_inv scenario_state (Symbols (modules scenario_state 0)) \<and>
   (0x1000 :: Addr) \<le> 0x2000 \<and>
   symbols_by_addr_in scenario_state 0 (findSymbols_range scenario_state 0 0x1000 0x2000) = Some [0] \<and>
   symbols_by_addr_in scenario_state 0 (findSymbols_range scenario_state 0 0x3000 0x4000) = Some []"
proof -
  have inv: "symbolset_inv scenario_state (Symbols (modules scenario_state 0))"
    using state_inv_scenario by (simp add: state_inv_def)
  have le: "(0x1000 :: Addr) \<le> 0x2000" by simp
  have a: "symbols_by_addr_in scenario_state 0 (findSymbols_range scenario_state 0 0x1000 0x2000) = Some [0]"
    by code_simp
  have b: "symbols_by_addr_in scenario_state 0 (findSymbols_range scenario_state 0 0x3000 0x4000) = Some []"
    by code_simp
  from findSymbols_range_exact [OF inv le] inv le a b show ?thesis by simp
qed

text \<open>
  Claim C6. From a state in which every symbol's parent is the module that lists it:
  \<open>addSymbol(S)\<close> on module \<open>M\<close> returns \<open>S\<close>, leaves \<open>S\<close> with parent \<open>M\<close>, listed
  in all indices of \<open>M\<close> and in no other module; a \<open>removeSymbol(S)\<close> that returns true
  leaves \<open>S\<close> with a null parent and listed in no module; and both operations lead
  again to a state in which every symbol's parent is the module that lists it.
\<close>

theorem symbol_parent_consistent:
  assumes "state_inv st"
  shows "fst (addSymbol M S st) = S \<and>
         getModule (snd (addSymbol M S st)) S = Some M \<and>
         S \<in> by_pointer (Symbols (modules (snd (addSymbol M S st)) M)) \<and>
         S \<in> set (by_address (Symbols (modules (snd (addSymbol M S st)) M))) \<and>
         S \<in> set (by_name (Symbols (modules (snd (addSymbol M S st)) M))) \<and>
         (\<forall>M'. M' \<noteq> M \<longrightarrow> S \<notin> by_pointer (Symbols (modules (snd (addSymbol M S st)) M'))) \<and>
         state_inv (snd (addSymbol M S st)) \<and>
         (fst (removeSymbol M S st) \<longrightarrow>
            getModule (snd (removeSymbol M S st)) S = None \<and>
            (\<forall>M'. S \<notin> by_pointer (Symbols (modules (snd (removeSymbol M S st)) M')))) \<and>
         state_inv (snd (removeSymbol M S st)) \<and>
         (\<forall>S' M'. (getModule st S' = Some M') = (S' \<in> by_pointer (Symbols (modules st M'))))"
proof -
  let ?a = "snd (addSymbol M S st)" and ?r = "snd (removeSymbol M S st)"
  have ia: "state_inv ?a" using assms by (rule state_inv_addSymbol)
  have ir: "state_inv ?r" using assms by (rule state_inv_removeSymbol)
  have pa: "getModule ?a S = Some M" using assms by (rule addSymbol_attaches)
  have ma: "S \<in> by_pointer (Symbols (modules ?a M))"
    using pa by (simp add: state_inv_member [OF ia])
  have sa: "symbolset_inv ?a (Symbols (modules ?a M))" using ia by (simp add: state_inv_def)
  have la: "S \<in> set (by_address (Symbols (modules ?a M)))" "S \<in> set (by_name (Symbols (modules ?a M)))"
    using ma sa by (simp_all add: symbolset_inv_def)
  have oa: "\<forall>M'. M' \<noteq> M \<longrightarrow> S \<notin> by_pointer (Symbols (modules ?a M'))"
    using pa by (simp add: state_inv_member [OF ia])
  have rr: "fst (removeSymbol M S st) \<longrightarrow>
              getModule ?r S = None \<and> (\<forall>M'. S \<notin> by_pointer (Symbols (modules ?r M')))"
  proof
    assume ok: "fst (removeSymbol M S st)"
    have "getModule ?r S = None" using assms ok by (rule removeSymbol_detaches)
    then show "getModule ?r S = None \<and> (\<forall>M'. S \<notin> by_pointer (Symbols (modules ?r M')))"
      by (simp add: state_inv_member [OF ir])
  qed
  have pi: "\<forall>S' M'. (getModule st S' = Some M') = (S' \<in> by_pointer (Symbols (modules st M')))"
    by (simp add: state_inv_member [OF assms])
  show ?thesis using ia ir pa ma la oa rr pi by simp
qed

theorem symbol_parent_consistent_witness:
  "state_inv scenario_state \<and>
   getModule scenario_state 0 = Some 0 \<and>
   getModule (snd (addSymbol 1 0 scenario_state)) 0 = Some 1 \<and>
   0 \<in> by_pointer (Symbols (modules (snd (addSymbol 1 0 scenario_state)) 1)) \<and>
   0 \<notin> by_pointer (Symbols (modules (snd (addSymbol 1 0 scenario_state)) 0)) \<and>
   fst (removeSymbol 0 2 scenario_state) \<and>
   getModule (snd (removeSymbol 0 2 scenario_state)) 2 = None \<and>
   2 \<notin> by_pointer (Symbols (modules (snd (removeSymbol 0 2 scenario_state)) 0))"
proof -
  have inv: "state_inv scenario_state" by (rule state_inv_scenario)
  have p: "getModule scenario_state 0 = Some 0" by code_simp
  have ok: "fst (removeSymbol 0 2 scenario_state)" by code_simp
  have ne: "(0::nat) \<noteq> 1" by simp
  from symbol_parent_consistent [OF inv, where M = 1 and S = 0] ne
       symbol_parent_consistent [OF inv, where M = 0 and S = 2] ok inv p
  show ?thesis by blast
qed

text \<open>
  Claim C7 as stated fails for \<open>Module::removeSymbol\<close>: its result is a boolean and not
  a tri-state. Removing symbol 7, which the three-symbol module does not hold, returns
  \<open>false\<close>, and no three calls of \<open>removeSymbol\<close> have three different results.
\<close>

theorem removeSymbol_result_is_boolean:
  "reachable scenario_state \<and>
   removeSymbol 0 7 scenario_state = (False, scenario_state) \<and>
   \<not> (\<exists>x y z. distinct [fst (removeSymbol (fst x) (fst (snd x)) (snd (snd x))),
                         fst (removeSymbol (fst y) (fst (snd y)) (snd (snd y))),
                         fst (removeSymbol (fst z) (fst (snd z)) (snd (snd z)))])"
proof -
  have "7 \<notin> by_pointer (Symbols (modules scenario_state 0))" by code_simp
  then have "removeSymbol 0 7 scenario_state = (False, scenario_state)"
    by (rule removeSymbol_absent)
  then show ?thesis using reachable_scenario by auto
qed

text \<open>
  Claim C7, amended. \<open>Module::removeSymbol\<close> returns a boolean: removing a symbol that the
  module does not hold returns \<open>false\<close> and leaves the whole state as it was, so the
  module's collection and indices and the symbol's parent pointer are unchanged.
\<close>

theorem removeSymbol_not_contained:
  assumes "S \<notin> by_pointer (Symbols (modules st M))"
  shows "removeSymbol M S st = (False, st) \<and>
         Symbols (modules (snd (removeSymbol M S st)) M) = Symbols (modules st M) \<and>
         getModule (snd (removeSymbol M S st)) S = getModule st S"
  using assms by (simp add: removeSymbol_def)

theorem removeSymbol_not_contained_witness:
  "7 \<notin> by_pointer (Symbols (modules scenario_state 0)) \<and>
   removeSymbol 0 7 scenario_state = (False, scenario_state)"
proof -
  have a: "7 \<notin> by_pointer (Symbols (modules scenario_state 0))" by code_simp
  from removeSymbol_not_contained [OF a] a show ?thesis by simp
qed

text \<open>
  Claim C10. An absent address orders strictly before every concrete address. Hence in a
  module whose indices are consistent every symbol at or behind the position
  \<open>lower_bound(Lower)\<close> of the by-address index has a present address, not below
  \<open>Lower\<close>; whatever \<open>Lower\<close> and \<open>Upper\<close> are, the symbols that iterating
  \<open>findSymbols(Lower, Upper)\<close> yields all have an address.
\<close>

theorem findSymbols_range_skips_absent_addresses:
  assumes "symbolset_inv st (Symbols (modules st M))"
  shows "(None :: Addr option) < Some Lower \<and>
         (\<forall>S \<in> set (drop (fst (findSymbols_range st M Lower Upper)) (by_address (Symbols (modules st M)))).
            \<exists>A. getAddress st S = Some A \<and> Lower \<le> A) \<and>
         (\<forall>xs. symbols_by_addr_in st M (findSymbols_range st M Lower Upper) = Some xs \<longrightarrow>
            (\<forall>S \<in> set xs. getAddress st S \<noteq> None))"
proof -
  let ?idx = "by_address (Symbols (modules st M))"
  from assms have srt: "sorted (map (getAddress st) ?idx)" by (simp add: symbolset_inv_def)
  have tail: "\<exists>A. getAddress st S = Some A \<and> Lower \<le> A"
    if "S \<in> set (drop (fst (findSymbols_range st M Lower Upper)) ?idx)" for S
    using sorted_drop_lower_bound [OF srt, of S "Some Lower"] that
    by (simp add: findSymbols_range_def Let_def Some_le_iff)
  have "getAddress st S \<noteq> None"
    if "symbols_by_addr_in st M (findSymbols_range st M Lower Upper) = Some xs" "S \<in> set xs" for xs S
  proof -
    have "set xs \<subseteq> set (drop (fst (findSymbols_range st M Lower Upper)) ?idx)"
      using that(1) by (simp add: symbols_by_addr_in_def range_elems_subset)
    then have "S \<in> set (drop (fst (findSymbols_range st M Lower Upper)) ?idx)"
      using that(2) by blast
    from tail [OF this] show ?thesis by auto
  qed
  then show ?thesis using tail by auto
qed

theorem findSymbols_range_skips_absent_addresses_witness:
  "symbolset_inv scenario_state (Symbols (modules scenario_state 0)) \<and>
   getAddress scenario_state 1 = None \<and>
   1 \<in> by_pointer (Symbols (modules scenario_state 0)) \<and>
   symbols_by_addr_in scenario_state 0 (findSymbols_range scenario_state 0 0 0xFFFFFFFFFFFFFFFF) = Some [0, 2] \<and>
   getAddress scenario_state 0 \<noteq> None \<and> getAddress scenario_state 2 \<noteq> None"
proof -
  have inv: "symbolset_inv scenario_state (Symbols (modules scenario_state 0))"
    using state_inv_scenario by (simp add: state_inv_def)
  have a: "getAddress scenario_state 1 = None" by code_simp
  have b: "1 \<in> by_pointer (Symbols (modules scenario_state 0))" by code_simp
  have c: "symbols_by_addr_in scenario_state 0 (findSymbols_range scenario_state 0 0 0xFFFFFFFFFFFFFFFF) = Some [0, 2]"
    by code_simp
  from findSymbols_range_skips_absent_addresses
         [OF inv, where Lower = 0 and Upper = "0xFFFFFFFFFFFFFFFF"] c
  have "\<forall>S \<in> set [0, 2]. getAddress scenario_state S \<noteq> None" by blast
  then have "getAddress scenario_state 0 \<noteq> None \<and> getAddress scenario_state 2 \<noteq> None" by simp
  with inv a b c show ?thesis by blast
qed

section \<open>Claims about CodeBlock\<close>

lemma setSize_unobserved:
  "cb_Observer b = None \<Longrightarrow> setSize nd sc S (b, w) = Returns (b\<lparr>Size := S\<rparr>, w)"
  by (simp add: setSize_def)

lemma setSize_observed:
  "cb_Observer b = Some Obs \<Longrightarrow>
   setSize nd sc S (b, w) =
     (if \<not> nd \<and> fst (sc Obs (b\<lparr>Size := S\<rparr>) (Size b) S w) = Rejected
      then AssertionFailed (b\<lparr>Size := S\<rparr>, snd (sc Obs (b\<lparr>Size := S\<rparr>) (Size b) S w))
      else Returns (b\<lparr>Size := S\<rparr>, snd (sc Obs (b\<lparr>Size := S\<rparr>) (Size b) S w)))"
  by (simp add: setSize_def Let_def split: prod.splits)

text \<open>
  Claim C8. Whatever the observer answers, and whether or not one is installed, the block
  has size \<open>S\<close> in the state that \<open>setSize(S)\<close> reaches; in particular
  \<open>getSize()\<close> is \<open>S\<close> after it returns. Without an observer the call returns having
  only assigned the size. With an observer the size is assigned first, and the observer is
  then told \<open>(old size, S)\<close> while the block it is given already has size \<open>S\<close>; the
  call returns unless assertions are enabled and the observer answers \<open>Rejected\<close>, and
  even then the new size stays.
\<close>

theorem setSize_always_commits:
  "getSize (fst (reached (setSize nd sc S (b, w)))) = S \<and>
   (\<forall>b' w'. setSize nd sc S (b, w) = Returns (b', w') \<longrightarrow> getSize b' = S) \<and>
   (cb_Observer b = None \<longrightarrow> setSize nd sc S (b, w) = Returns (b\<lparr>Size := S\<rparr>, w)) \<and>
   (\<forall>Obs. cb_Observer b = Some Obs \<longrightarrow>
      (\<exists>Status w'. sc Obs (b\<lparr>Size := S\<rparr>) (getSize b) S w = (Status, w') \<and>
         setSize nd sc S (b, w) =
           (if \<not> nd \<and> Status = Rejected then AssertionFailed (b\<lparr>Size := S\<rparr>, w')
            else Returns (b\<lparr>Size := S\<rparr>, w'))))"
proof (cases "cb_Observer b")
  case None
  then show ?thesis by (simp add: setSize_unobserved getSize_def)
next
  case (Some Obs)
  obtain Status w' where r: "sc Obs (b\<lparr>Size := S\<rparr>) (Size b) S w = (Status, w')"
    by (cases "sc Obs (b\<lparr>Size := S\<rparr>) (Size b) S w")
  show ?thesis using Some r by (auto simp: setSize_observed getSize_def)
qed

theorem setSize_always_commits_witness:
  "setSize False recording_observer 7 (block_of_size 4 None, []) =
     Returns (block_of_size 7 None, []) \<and>
   setSize False recording_observer 7 (block_of_size 4 (Some 0), []) =
     Returns (block_of_size 7 (Some 0), [(7, 4, 7)]) \<and>
   setSize True recording_observer 7 (block_of_size 4 (Some 1), []) =
     Returns (block_of_size 7 (Some 1), [(7, 4, 7)]) \<and>
   setSize False recording_observer 7 (block_of_size 4 (Some 1), []) =
     AssertionFailed (block_of_size 7 (Some 1), [(7, 4, 7)]) \<and>
   getSize (block_of_size 7 (Some 0)) = 7"
proof -
  have n: "cb_Observer (block_of_size 4 None) = None"
    and s0: "cb_Observer (block_of_size 4 (Some 0)) = Some 0"
    and s1: "cb_Observer (block_of_size 4 (Some 1)) = Some 1"
    by (simp_all add: block_of_size_def)
  have u: "\<And>x. (block_of_size 4 x)\<lparr>Size := 7\<rparr> = block_of_size 7 x"
    by (simp add: block_of_size_def)
  note t = setSize_always_commits [where S = 7 and sc = recording_observer and w = "[]"]
  from t [where nd = False and b = "block_of_size 4 None"] n
  have a: "setSize False recording_observer 7 (block_of_size 4 None, []) =
     Returns (block_of_size 7 None, [])" by (simp add: u)
  from t [where nd = False and b = "block_of_size 4 (Some 0)"] s0
  have b: "setSize False recording_observer 7 (block_of_size 4 (Some 0), []) =
     Returns (block_of_size 7 (Some 0), [(7, 4, 7)])"
    by (simp add: u recording_observer_def getSize_def block_of_size_def)
  from t [where nd = True and b = "block_of_size 4 (Some 1)"] s1
  have c: "setSize True recording_observer 7 (block_of_size 4 (Some 1), []) =
     Returns (block_of_size 7 (Some 1), [(7, 4, 7)])"
    by (simp add: u recording_observer_def getSize_def block_of_size_def)
  from t [where nd = False and b = "block_of_size 4 (Some 1)"] s1
  have d: "setSize False recording_observer 7 (block_of_size 4 (Some 1), []) =
     AssertionFailed (block_of_size 7 (Some 1), [(7, 4, 7)])"
    by (simp add: u recording_observer_def getSize_def block_of_size_def)
  have e: "getSize (block_of_size 7 (Some 0)) = 7" by (simp add: getSize_def block_of_size_def)
  from a b c d e show ?thesis by simp
qed

section \<open>Claims about Variant11\<close>

lemma le_10_cases:
  "k \<le> (10::nat) \<Longrightarrow>
   k = 0 \<or> k = 1 \<or> k = 2 \<or> k = 3 \<or> k = 4 \<or> k = 5 \<or> k = 6 \<or> k = 7 \<or> k = 8 \<or> k = 9 \<or> k = 10"
  by arith

lemmas variant_members =
  constructors_def getters_def setters_def getIndex_def Optional_of_def Optional_empty_def
  Variant11_T0_def Variant11_T1_def Variant11_T2_def Variant11_T3_def Variant11_T4_def
  Variant11_T5_def Variant11_T6_def Variant11_T7_def Variant11_T8_def Variant11_T9_def
  Variant11_T10_def
  get0_def get1_def get2_def get3_def get4_def get5_def get6_def get7_def get8_def
  get9_def get10_def
  set0_def set1_def set2_def set3_def set4_def set5_def set6_def set7_def set8_def
  set9_def set10_def

lemma variant_constructed:
  assumes "k \<le> 10" "j \<le> 10"
  shows "getIndex ((constructors ! k) r) = int k \<and>
         (getters ! j) ((constructors ! k) r) = (if j = k then Optional_of r else Inr None)"
  using le_10_cases [OF assms(1)] le_10_cases [OF assms(2)]
  by (elim disjE) (simp_all add: variant_members)

lemma variant_set:
  assumes "k \<le> 10" "j \<le> 10"
  shows "getIndex ((setters ! k) r v) = int k \<and>
         (getters ! j) ((setters ! k) r v) = (if j = k then Optional_of r else Inr None)"
  using le_10_cases [OF assms(1)] le_10_cases [OF assms(2)]
  by (elim disjE) (simp_all add: variant_members)

text \<open>
  Claim C9 as stated fails when the stored reference is \<open>null\<close>: the getter of the
  populated field then throws \<open>NullPointerException\<close> out of \<open>Optional.of\<close> instead of
  returning an Optional, after a constructor as well as after a setter.
\<close>

theorem variant_getter_null_object:
  "get0 (Variant11_T0 (Null :: nat ref)) = Inl NullPointerException \<and>
   get3 (set3 (Null :: nat ref) (Variant11_T0 (Ref 5))) = Inl NullPointerException"
  by (simp add: variant_members)

text \<open>
  Claim C9, amended. For a \<open>Variant11\<close> constructed with, or set to, its \<open>k\<close>-th field
  (\<open>0 \<le> k \<le> 10\<close>), \<open>getIndex()\<close> returns \<open>k\<close> and the getter of every other field
  returns an empty Optional, whatever reference is stored; when the stored reference is
  an object and not \<open>null\<close>, the getter of field \<open>k\<close> returns that object wrapped in
  Optional.
\<close>

theorem variant_tag_is_field_number:
  assumes "k \<le> 10" and "j \<le> 10"
  shows "getIndex ((constructors ! k) r) = int k \<and>
         getIndex ((setters ! k) r v) = int k \<and>
         (getters ! k) ((constructors ! k) (Ref x)) = Inr (Some x) \<and>
         (getters ! k) ((setters ! k) (Ref x) v) = Inr (Some x) \<and>
         (j \<noteq> k \<longrightarrow> (getters ! j) ((constructors ! k) r) = Inr None \<and>
                    (getters ! j) ((setters ! k) r v) = Inr None)"
  using variant_constructed [OF assms, of r] variant_set [OF assms, of r v]
        variant_constructed [OF assms(1) assms(1), of "Ref x"]
        variant_set [OF assms(1) assms(1), of "Ref x" v]
  by (simp add: Optional_of_def)

theorem variant_tag_is_field_number_witness:
  "(3::nat) \<le> 10 \<and> (7::nat) \<le> 10 \<and> (7::nat) \<noteq> 3 \<and>
   getIndex (Variant11_T3 (Ref (42::nat))) = 3 \<and>
   get3 (Variant11_T3 (Ref (42::nat))) = Inr (Some 42) \<and>
   get7 (Variant11_T3 (Ref (42::nat))) = Inr None \<and>
   getIndex (set3 (Ref (42::nat)) (Variant11_T0 Null)) = 3 \<and>
   get3 (set3 (Ref (42::nat)) (Variant11_T0 Null)) = Inr (Some 42) \<and>
   get7 (set3 (Ref (42::nat)) (Variant11_T0 Null)) = Inr None"
proof -
  have k: "(3::nat) \<le> 10" and j: "(7::nat) \<le> 10" and ne: "(7::nat) \<noteq> 3" by simp_all
  have c: "(constructors ! 3) = (Variant11_T3 :: nat ref \<Rightarrow> nat Variant11)"
    and g3: "(getters ! 3) = (get3 :: nat Variant11 \<Rightarrow> exn + nat option)"
    and g7: "(getters ! 7) = (get7 :: nat Variant11 \<Rightarrow> exn + nat option)"
    and s: "(setters ! 3) = (set3 :: nat ref \<Rightarrow> nat Variant11 \<Rightarrow> nat Variant11)"
    by (simp_all add: constructors_def getters_def setters_def)
  from variant_tag_is_field_number [OF k j, where r = "Ref (42::nat)" and x = 42
      and v = "Variant11_T0 Null"] ne k j
  show ?thesis by (simp add: c g3 g7 s)
qed

section \<open>Claims about the read path\<close>

lemma take_bytes_append: "length p = n \<Longrightarrow> take_bytes n (p @ r) = Some (p, r)"
  by (simp add: take_bytes_def)

lemma take_bytes_SomeD: "take_bytes n bs = Some (p, r) \<Longrightarrow> bs = p @ r \<and> length p = n"
  by (auto simp: take_bytes_def split: if_splits)

lemma fits_count_iff: "fits_count n \<longleftrightarrow> n < 2 ^ 64"
proof -
  have "int n < 2 ^ 64 \<longleftrightarrow> int n < int (2 ^ 64)" by simp
  also have "\<dots> \<longleftrightarrow> n < 2 ^ 64" by (rule of_nat_less_iff)
  finally show ?thesis by (simp add: fits_count_def)
qed

lemma parse_message_0xFF: "parse_message [0xFF] = None"
  by code_simp

lemma read_envelope_junk:
  "take 5 B \<noteq> magic \<Longrightarrow> read_envelope current upgrade B = Inl BadEnvelope"
  by (simp add: read_envelope_def)

lemma read_envelope_version:
  assumes "version \<noteq> current" and "\<not> version < current"
  shows "read_envelope current upgrade (magic @ [0, 0, version] @ payload) = Inl BadEnvelope"
proof -
  have "length magic = 5" by (simp add: magic_def)
  then show ?thesis using assms by (simp add: read_envelope_def nth_append)
qed

lemma read_envelope_payload:
  "read_envelope current upgrade (magic @ [0, 0, current] @ payload) =
     (case parse_message payload of None \<Rightarrow> Inl DecodeError | Some m \<Rightarrow> Inr m)"
proof -
  have "length magic = 5" by (simp add: magic_def)
  then show ?thesis by (simp add: read_envelope_def nth_append)
qed

text \<open>
  Claim C3. Reading a byte sequence whose first five bytes are not the magic, such as
  \<open>JUNK!\<close>, fails with \<open>BadEnvelope\<close>; reading the magic followed by \<open>[0, 0, 255]\<close>
  fails with \<open>BadEnvelope\<close> when 255 is not the current version; reading the magic, two
  zero bytes, the current version and the single byte \<open>0xFF\<close> fails with
  \<open>DecodeError\<close>. Each result is an error, so no IR is produced, and \<open>loadFile\<close>
  answers \<open>null\<close>.
\<close>

theorem read_rejects_bad_envelopes:
  "(take 5 B \<noteq> magic \<longrightarrow> read_envelope current upgrade B = Inl BadEnvelope) \<and>
   read_envelope current upgrade [0x4A, 0x55, 0x4E, 0x4B, 0x21] = Inl BadEnvelope \<and>
   (current \<noteq> 255 \<longrightarrow>
      read_envelope current upgrade (magic @ [0, 0, 255]) = Inl BadEnvelope) \<and>
   read_envelope current upgrade (magic @ [0, 0, current] @ [0xFF]) = Inl DecodeError \<and>
   loadFile current upgrade [0x4A, 0x55, 0x4E, 0x4B, 0x21] = None \<and>
   (current \<noteq> 255 \<longrightarrow> loadFile current upgrade (magic @ [0, 0, 255]) = None) \<and>
   loadFile current upgrade (magic @ [0, 0, current] @ [0xFF]) = None"
proof -
  have a: "take 5 B \<noteq> magic \<longrightarrow> read_envelope current upgrade B = Inl BadEnvelope"
    by (simp add: read_envelope_junk)
  have b: "read_envelope current upgrade [0x4A, 0x55, 0x4E, 0x4B, 0x21] = Inl BadEnvelope"
    by (rule read_envelope_junk) (simp add: magic_def)
  have c: "read_envelope current upgrade (magic @ [0, 0, 255]) = Inl BadEnvelope"
    if "current \<noteq> 255"
  proof -
    have "\<not> (255 :: byte) < current"
    proof -
      have "unat current < 2 ^ LENGTH(8)" by (rule unsigned_less)
      then show ?thesis by (simp add: word_less_nat_alt)
    qed
    from read_envelope_version [OF that [symmetric] this, of upgrade "[]"] show ?thesis by simp
  qed
  have d: "read_envelope current upgrade (magic @ [0, 0, current] @ [0xFF]) = Inl DecodeError"
    by (simp only: read_envelope_payload parse_message_0xFF option.case)
  from a b c d show ?thesis by (simp add: loadFile_def)
qed

theorem read_rejects_bad_envelopes_witness:
  "take 5 [0x4A, 0x55, 0x4E, 0x4B] \<noteq> magic \<and>
   read_envelope 1 no_upgrade [0x4A, 0x55, 0x4E, 0x4B] = Inl BadEnvelope \<and>
   (1 :: byte) \<noteq> 255 \<and>
   read_envelope 1 no_upgrade (magic @ [0, 0, 255]) = Inl BadEnvelope \<and>
   read_envelope 1 no_upgrade (magic @ [0, 0, 1] @ [0xFF]) = Inl DecodeError \<and>
   loadFile 1 no_upgrade (magic @ [0, 0, 1] @ [0xFF]) = None \<and>
   read_envelope 1 no_upgrade (magic @ [0, 0, 1] @ [0x08, 0x96, 0x01]) = Inr [(1, Varint 150)]"
proof -
  have j: "take 5 [0x4A, 0x55, 0x4E, 0x4B] \<noteq> magic" by (simp add: magic_def)
  have n: "(1 :: byte) \<noteq> 255" by simp
  have p: "read_envelope 1 no_upgrade (magic @ [0, 0, 1] @ [0x08, 0x96, 0x01]) = Inr [(1, Varint 150)]"
    by code_simp
  from read_rejects_bad_envelopes [where B = "[0x4A, 0x55, 0x4E, 0x4B]" and current = 1
      and upgrade = no_upgrade] j n p
  show ?thesis by blast
qed

section \<open>Properties of the AuxData codec\<close>

lemma length_le_bytes [simp]: "length (le_bytes n x) = n"
  by (induction n arbitrary: x) simp_all

lemma le_nat_le_bytes: "le_nat (le_bytes n x) = x mod 256 ^ n"
proof (induction n arbitrary: x)
  case 0
  then show ?case by simp
next
  case (Suc n)
  have "unat (of_nat (x mod 256) :: byte) = x mod 256"
    by (simp add: unat_of_nat)
  then show ?case
    using Suc by (simp add: mod_mult2_eq)
qed

lemma le_nat_less: "le_nat bs < 256 ^ length bs"
proof (induction bs)
  case Nil
  then show ?case by simp
next
  case (Cons b bs)
  have "unat b < 2 ^ LENGTH(8)" by (rule unsigned_less)
  then have "unat b < 256" by simp
  then show ?case using Cons by simp
qed

lemma le_bytes_le_nat: "le_bytes (length bs) (le_nat bs) = bs"
proof (induction bs)
  case Nil
  then show ?case by simp
next
  case (Cons b bs)
  have "unat b < 2 ^ LENGTH(8)" by (rule unsigned_less)
  then have b: "unat b < 256" by simp
  then have "(unat b + 256 * le_nat bs) mod 256 = unat b"
    and "(unat b + 256 * le_nat bs) div 256 = le_nat bs"
    by simp_all
  then show ?case using Cons by simp
qed

lemma dec_count_enc_count:
  "fits_count n \<Longrightarrow> dec_count (enc_count n @ r) = Some (n, r)"
  by (simp add: dec_count_def enc_count_def take_bytes_append le_nat_le_bytes fits_count_iff)

lemma dec_count_SomeD:
  assumes "dec_count bs = Some (n, r)"
  shows "bs = enc_count n @ r \<and> fits_count n"
proof -
  from assms obtain p where p: "take_bytes 8 bs = Some (p, r)" "n = le_nat p"
    by (auto simp: dec_count_def)
  then have bs: "bs = p @ r" and l: "length p = 8" by (auto dest: take_bytes_SomeD)
  have "le_bytes 8 (le_nat p) = p" using le_bytes_le_nat [of p] l by simp
  moreover have "le_nat p < 2 ^ 64" using le_nat_less [of p] l by simp
  ultimately show ?thesis using p bs by (simp add: enc_count_def fits_count_iff)
qed

lemma pow256: "8 dvd LENGTH('a::len) \<Longrightarrow> (256::nat) ^ (LENGTH('a) div 8) = 2 ^ LENGTH('a)"
proof -
  assume "8 dvd LENGTH('a)"
  then obtain k where k: "LENGTH('a) = 8 * k" by (auto elim: dvdE)
  have "(256::nat) ^ k = (2 ^ 8) ^ k" by simp
  also have "\<dots> = 2 ^ (8 * k)" by (simp only: power_mult)
  finally show ?thesis using k by simp
qed

lemma length_enc_word [simp]: "length (enc_word (w :: 'a::len word)) = LENGTH('a) div 8"
  by (simp add: enc_word_def)

lemma dec_word_enc_word:
  assumes "8 dvd LENGTH('a::len)"
  shows "dec_word (enc_word (w :: 'a word) @ r) = Some (w, r)"
proof -
  have "unat w < 2 ^ LENGTH('a)" by (rule unsigned_less)
  then have "unat w mod 256 ^ (LENGTH('a) div 8) = unat w"
    by (simp add: pow256 [OF assms])
  then show ?thesis
    by (simp add: dec_word_def take_bytes_append enc_word_def le_nat_le_bytes)
qed

lemma dec_word_SomeD:
  assumes "8 dvd LENGTH('a::len)" and "dec_word bs = Some (w :: 'a word, r)"
  shows "bs = enc_word w @ r"
proof -
  from assms(2) obtain p where p: "take_bytes (LENGTH('a) div 8) bs = Some (p, r)"
    "w = of_nat (le_nat p)"
    by (auto simp: dec_word_def)
  then have bs: "bs = p @ r" and l: "length p = LENGTH('a) div 8" by (auto dest: take_bytes_SomeD)
  have "le_nat p < 2 ^ LENGTH('a)" using le_nat_less [of p] l by (simp add: pow256 [OF assms(1)])
  then have "unat w = le_nat p" using p(2) by (simp add: unat_of_nat)
  then have "enc_word w = p" using le_bytes_le_nat [of p] l by (simp add: enc_word_def)
  then show ?thesis using bs by simp
qed

lemmas dvd8 = dvd_refl [of "8::nat"]

lemma those_map_Some [simp]: "those (map Some es) = Some es"
  by (induction es) simp_all

lemma those_eq_Some: "those xs = Some es \<longleftrightarrow> xs = map Some es"
proof (induction xs arbitrary: es)
  case Nil
  then show ?case by auto
next
  case (Cons x xs)
  then show ?case by (cases x) (auto split: option.splits)
qed

lemma repeat_encoded:
  assumes "\<forall>e\<in>set es. \<forall>r. dec (e @ r) = Some (g e, r)"
  shows "repeat dec (length es) (concat es @ r) = Some (map g es, r)"
  using assms by (induction es) simp_all

lemma repeat_decoded:
  assumes "\<And>bs x r. dec bs = Some (x, r) \<Longrightarrow> \<exists>e. bs = e @ r \<and> enc x = Some e"
    and "repeat dec n bs = Some (xs, r)"
  shows "length xs = n \<and> (\<exists>es. bs = concat es @ r \<and> map enc xs = map Some es)"
  using assms(2)
proof (induction n arbitrary: bs xs)
  case 0
  then show ?case by simp
next
  case (Suc n)
  from Suc.prems obtain x r1 ys where
    x: "dec bs = Some (x, r1)" and ys: "repeat dec n r1 = Some (ys, r)" and xs: "xs = x # ys"
    by (auto split: option.splits)
  from assms(1) [OF x] obtain e where e: "bs = e @ r1" "enc x = Some e" by blast
  from Suc.IH [OF ys] obtain es where
    es: "length ys = n" "r1 = concat es @ r" "map enc ys = map Some es" by blast
  have "bs = concat (e # es) @ r \<and> map enc xs = map Some (e # es)"
    using e es xs by simp
  then have "\<exists>es. bs = concat es @ r \<and> map enc xs = map Some es" by (rule exI)
  moreover have "length xs = Suc n" using es(1) xs by simp
  ultimately show ?case by simp
qed

lemma repeat_typed:
  assumes "\<And>bs x r. dec bs = Some (x, r) \<Longrightarrow> Q x"
    and "repeat dec n bs = Some (xs, r)"
  shows "length xs = n \<and> (\<forall>x\<in>set xs. Q x)"
  using assms(2)
proof (induction n arbitrary: bs xs)
  case 0
  then show ?case by simp
next
  case (Suc n)
  from Suc.prems obtain x r1 ys where
    x: "dec bs = Some (x, r1)" and ys: "repeat dec n r1 = Some (ys, r)" and xs: "xs = x # ys"
    by (auto split: option.splits)
  from Suc.IH [OF ys] assms(1) [OF x] xs show ?case by simp
qed

lemma sorted_list_of_fset_sorted: "sorted (sorted_list_of_fset S)"
  by (simp add: sorted_list_of_fset.rep_eq)

lemma sorted_list_of_fset_distinct: "distinct (sorted_list_of_fset S)"
  by (simp add: sorted_list_of_fset.rep_eq)

lemma sorted_list_of_fset_unique:
  assumes "sorted xs" "distinct xs"
  shows "sorted_list_of_fset (fset_of_list xs) = xs"
proof -
  have "set (sorted_list_of_fset (fset_of_list xs)) = set xs" by (simp add: fset_of_list.rep_eq)
  then show ?thesis
    using assms sorted_list_of_fset_sorted sorted_list_of_fset_distinct
    by (intro sorted_distinct_set_unique) auto
qed

lemma repeat_encoded_map:
  assumes "\<forall>y\<in>set ys. \<forall>r. dec (h y @ r) = Some (g y, r)"
  shows "repeat dec (length ys) (concat (map h ys) @ r) = Some (map g ys, r)"
  using assms by (induction ys) simp_all

lemma roundtripsD:
  assumes "roundtrips T x"
  shows "encode T x = Some (encoded T x)"
    and "decode_from T (encoded T x @ r) = Some (x, r)"
    and "decoded T (encoded T x) = x"
proof -
  from assms obtain e where e: "encode T x = Some e" "\<And>r. decode_from T (e @ r) = Some (x, r)"
    by (auto simp: roundtrips_def)
  then have ee: "encoded T x = e" by (simp add: encoded_def)
  show "encode T x = Some (encoded T x)" using e ee by simp
  show "decode_from T (encoded T x @ r) = Some (x, r)" using e ee by simp
  show "decoded T (encoded T x) = x" using e(2) [of "[]"] ee by (simp add: decoded_def)
qed

lemma roundtripsI:
  "encode T x = Some e \<Longrightarrow> (\<And>r. decode_from T (e @ r) = Some (x, r)) \<Longrightarrow> roundtrips T x"
  by (auto simp: roundtrips_def)

lemma roundtrips_Sequence:
  assumes IH: "\<And>x. has_type T x \<Longrightarrow> roundtrips T x"
    and ty: "has_type (TSequence T) v"
  shows "roundtrips (TSequence T) v"
proof -
  from ty obtain xs where v: "v = VSequence xs" and fits: "fits_count (length xs)"
    and el: "\<forall>x\<in>set xs. has_type T x"
    by (cases v) auto
  let ?es = "map (encoded T) xs"
  have rt: "\<forall>x\<in>set xs. roundtrips T x" using el IH by blast
  have "map (encode T) xs = map Some ?es"
    using rt by (auto dest: roundtripsD(1))
  then have th: "those (map (encode T) xs) = Some ?es" by (simp only: those_eq_Some)
  have enc: "encode (TSequence T) v = Some (enc_count (length xs) @ concat ?es)"
    using v th fits by simp
  have "\<forall>x\<in>set xs. \<forall>r. decode_from T (encoded T x @ r) = Some (x, r)"
    using rt by (auto dest: roundtripsD(2))
  then have "repeat (decode_from T) (length xs) (concat (map (encoded T) xs) @ r) = Some (map (\<lambda>x. x) xs, r)" for r
    by (rule repeat_encoded_map)
  then have "decode_from (TSequence T) ((enc_count (length xs) @ concat ?es) @ r) = Some (v, r)" for r
    using v fits by (simp add: dec_count_enc_count)
  with enc show ?thesis by (rule roundtripsI)
qed

lemma decode_from_SetI:
  "dec_count bs = Some (n, r1) \<Longrightarrow> repeat (decode_from T) n r1 = Some (xs, r') \<Longrightarrow>
   distinct xs \<Longrightarrow> sorted_wrt (<) (map (\<lambda>x. the (encode T x)) xs) \<Longrightarrow>
   decode_from (TSet T) bs = Some (VSet (fset_of_list xs), r')"
  by simp

lemma roundtrips_Set:
  assumes IH: "\<And>x. has_type T x \<Longrightarrow> roundtrips T x"
    and ty: "has_type (TSet T) v"
  shows "roundtrips (TSet T) v"
proof -
  from ty obtain S where v: "v = VSet S" and fits: "fits_count (fcard S)"
    and el: "\<forall>x\<in>fset S. has_type T x"
    by (cases v) auto
  have rt: "\<forall>x\<in>fset S. roundtrips T x" using el IH by blast
  let ?es = "sorted_list_of_fset (encoded T |`| S)"
  let ?xs = "map (decoded T) ?es"
  have mem: "\<exists>x\<in>fset S. e = encoded T x" if "e \<in> set ?es" for e
    using that by auto
  have none: "\<not> None |\<in>| encode T |`| S"
  proof
    assume "None |\<in>| encode T |`| S"
    then obtain x where "x \<in> fset S" "encode T x = None" by force
    then show False using rt roundtripsD(1) [of T x] by simp
  qed
  have len: "length ?es \<le> fcard S"
  proof -
    have "card (set ?es) = length ?es"
      using sorted_list_of_fset_distinct by (rule distinct_card)
    then have "length ?es = card (set ?es)" by simp
    also have "\<dots> = card (encoded T ` fset S)" by simp
    also have "\<dots> \<le> card (fset S)" by (rule card_image_le) simp
    finally show ?thesis by (simp add: fcard.rep_eq)
  qed
  then have fl: "fits_count (length ?es)" using fits by (simp add: fits_count_iff)
  have enc: "encode (TSet T) v = Some (enc_count (length ?es) @ concat ?es)"
    using v none fl by (simp add: Let_def encoded_def [abs_def])
  have dec1: "\<forall>e\<in>set ?es. \<forall>r. decode_from T (e @ r) = Some (decoded T e, r)"
  proof (intro ballI allI)
    fix e r assume "e \<in> set ?es"
    then obtain x where x: "x \<in> fset S" "e = encoded T x" using mem by blast
    then have "roundtrips T x" using rt by blast
    from roundtripsD(2,3) [OF this] x show "decode_from T (e @ r) = Some (decoded T e, r)"
      by simp
  qed
  have rep: "repeat (decode_from T) (length ?es) (concat ?es @ r) = Some (?xs, r)" for r
    using repeat_encoded_map [where h = "\<lambda>e. e", OF dec1, of r]
    by simp
  have bk: "map (encoded T) ?xs = ?es"
  proof -
    have "encoded T (decoded T e) = e" if "e \<in> set ?es" for e
    proof -
      from that obtain x where x: "x \<in> fset S" "e = encoded T x" using mem by blast
      then have "roundtrips T x" using rt by blast
      from roundtripsD(3) [OF this] x show ?thesis by simp
    qed
    then have "map (\<lambda>e. encoded T (decoded T e)) ?es = ?es" by (rule map_idI)
    then show ?thesis by (simp add: comp_def)
  qed
  have srt: "sorted_wrt (<) (map (\<lambda>x. the (encode T x)) ?xs)"
    using bk sorted_list_of_fset_sorted [of "encoded T |`| S"]
      sorted_list_of_fset_distinct [of "encoded T |`| S"]
    by (simp add: strict_sorted_iff encoded_def [abs_def])
  have dst: "distinct ?xs"
  proof -
    have "distinct (map (encoded T) ?xs)"
      using bk sorted_list_of_fset_distinct [of "encoded T |`| S"] by simp
    then show ?thesis by (simp only: distinct_map)
  qed
  have set_xs: "fset_of_list ?xs = S"
  proof -
    have id: "decoded T (encoded T x) = x" if "x \<in> fset S" for x
      using rt that by (auto dest: roundtripsD(3))
    have "set ?es = encoded T ` fset S" by simp
    then have "set ?xs = (\<lambda>x. decoded T (encoded T x)) ` fset S"
      by (simp only: set_map image_image)
    also have "\<dots> = fset S" using id by (simp add: image_iff set_eq_iff)
    finally have "fset (fset_of_list ?xs) = fset S" by (simp only: fset_of_list.rep_eq)
    then show ?thesis by (simp only: fset_inject)
  qed
  have "decode_from (TSet T) ((enc_count (length ?es) @ concat ?es) @ r) = Some (v, r)" for r
  proof -
    have "dec_count ((enc_count (length ?es) @ concat ?es) @ r) = Some (length ?es, concat ?es @ r)"
      using fl by (simp add: dec_count_enc_count)
    from decode_from_SetI [OF this rep dst] srt
    show ?thesis unfolding set_xs v by blast
  qed
  with enc show ?thesis by (rule roundtripsI)
qed

lemma sorted_map_fst:
  fixes ps :: "('a::linorder \<times> 'b::linorder) list"
  shows "sorted ps \<Longrightarrow> sorted (map fst ps)"
proof -
  assume "sorted ps"
  then have "sorted_wrt (\<lambda>p q. fst p \<le> fst q) ps"
    by (rule sorted_wrt_mono_rel [rotated]) (auto simp: less_eq_prod_def)
  then show ?thesis by (simp add: sorted_map)
qed

lemma strict_fst_sorted:
  fixes ps :: "('a::linorder \<times> 'b::linorder) list"
  shows "sorted_wrt (<) (map fst ps) \<Longrightarrow> sorted ps \<and> distinct ps"
proof -
  assume "sorted_wrt (<) (map fst ps)"
  then have "sorted_wrt (\<lambda>p q. fst p < fst q) ps" by (simp add: sorted_wrt_map)
  then have "sorted_wrt (<) ps"
    by (rule sorted_wrt_mono_rel [rotated]) (auto simp: less_prod_def)
  then show ?thesis by (simp add: strict_sorted_iff)
qed

lemma decode_from_MappingI:
  "dec_count bs = Some (n, r1) \<Longrightarrow>
   repeat (pair_decoder (decode_from K) (decode_from V)) n r1 = Some (kvs, r') \<Longrightarrow>
   distinct (map fst kvs) \<Longrightarrow>
   sorted_wrt (<) (map (\<lambda>p. the (encode K (fst p))) kvs) \<Longrightarrow>
   decode_from (TMapping K V) bs = Some (VMapping (fset_of_list kvs), r')"
  by simp

lemma roundtrips_Mapping:
  assumes IHK: "\<And>x. has_type K x \<Longrightarrow> roundtrips K x"
    and IHV: "\<And>x. has_type V x \<Longrightarrow> roundtrips V x"
    and ty: "has_type (TMapping K V) v"
  shows "roundtrips (TMapping K V) v"
proof -
  from ty obtain S where v: "v = VMapping S" and fits: "fits_count (fcard S)"
    and el: "\<forall>p\<in>fset S. has_type K (fst p) \<and> has_type V (snd p)"
    and uniq: "\<forall>p\<in>fset S. \<forall>q\<in>fset S. fst p = fst q \<longrightarrow> p = q"
    by (cases v) auto
  have rk: "roundtrips K (fst p)" and rv: "roundtrips V (snd p)" if "p \<in> fset S" for p
    using el IHK IHV that by blast+
  define encp where "encp = (\<lambda>p. (encoded K (fst p), encoded V (snd p)))"
  define decp where "decp = (\<lambda>e. (decoded K (fst e), decoded V (snd e)))"
  define h :: "byte list \<times> byte list \<Rightarrow> byte list" where "h = (\<lambda>(a, b). a @ b)"
  define es where "es = sorted_list_of_fset (encp |`| S)"
  define kvs where "kvs = map decp es"
  have encp_eq: "(\<lambda>(k, x). (the (encode K k), the (encode V x))) = encp"
    by (auto simp: encp_def encoded_def fun_eq_iff)
  have set_es: "set es = encp ` fset S" by (simp add: es_def)
  have sorted_es: "sorted es" and distinct_es: "distinct es"
    by (simp_all add: es_def sorted_list_of_fset_sorted sorted_list_of_fset_distinct)
  have dec_enc: "decp (encp p) = p" if "p \<in> fset S" for p
    using roundtripsD(3) [OF rk [OF that]] roundtripsD(3) [OF rv [OF that]]
    by (simp add: decp_def encp_def)
  have none: "\<not> (None |\<in>| (\<lambda>(k, x). encode K k) |`| S \<or> None |\<in>| (\<lambda>(k, x). encode V x) |`| S)"
  proof
    assume "None |\<in>| (\<lambda>(k, x). encode K k) |`| S \<or> None |\<in>| (\<lambda>(k, x). encode V x) |`| S"
    then obtain p where "p \<in> fset S" "encode K (fst p) = None \<or> encode V (snd p) = None"
      by force
    then show False
      using roundtripsD(1) [OF rk [of p]] roundtripsD(1) [OF rv [of p]] by auto
  qed
  have len: "length es \<le> fcard S"
  proof -
    have "card (set es) = length es" using distinct_es by (rule distinct_card)
    then have "length es = card (encp ` fset S)" using set_es by simp
    also have "\<dots> \<le> card (fset S)" by (rule card_image_le) simp
    finally show ?thesis by (simp add: fcard.rep_eq)
  qed
  then have fl: "fits_count (length es)" using fits by (simp add: fits_count_iff)
  have enc: "encode (TMapping K V) v = Some (enc_count (length es) @ concat (map h es))"
    using v none fl by (simp add: Let_def encp_eq es_def h_def)
  have dec1: "\<forall>e\<in>set es. \<forall>r.
      pair_decoder (decode_from K) (decode_from V) (h e @ r) = Some (decp e, r)"
  proof (intro ballI allI)
    fix e r assume "e \<in> set es"
    then obtain p where p: "p \<in> fset S" "e = encp p" using set_es by auto
    have "decode_from K (encoded K (fst p) @ (encoded V (snd p) @ r))
            = Some (fst p, encoded V (snd p) @ r)"
      by (rule roundtripsD(2) [OF rk [OF p(1)]])
    moreover have "decode_from V (encoded V (snd p) @ r) = Some (snd p, r)"
      by (rule roundtripsD(2) [OF rv [OF p(1)]])
    ultimately show "pair_decoder (decode_from K) (decode_from V) (h e @ r) = Some (decp e, r)"
      using p dec_enc [OF p(1)] by (simp add: pair_decoder_def h_def encp_def)
  qed
  have rep: "repeat (pair_decoder (decode_from K) (decode_from V)) (length es)
               (concat (map h es) @ r) = Some (kvs, r)" for r
    unfolding kvs_def using dec1 by (rule repeat_encoded_map)
  have enc_dec: "encp (decp e) = e" if "e \<in> set es" for e
  proof -
    from that obtain p where p: "p \<in> fset S" "e = encp p" using set_es by auto
    then show ?thesis using dec_enc [OF p(1)] by simp
  qed
  have bk: "map encp kvs = es"
  proof -
    have "map (\<lambda>e. encp (decp e)) es = es" using enc_dec by (rule map_idI)
    then show ?thesis by (simp add: kvs_def comp_def)
  qed
  have distinct_kvs: "distinct kvs"
  proof -
    have "distinct (map encp kvs)" using bk distinct_es by simp
    then show ?thesis by (simp only: distinct_map)
  qed
  have set_kvs: "set kvs = fset S"
  proof -
    have "set kvs = (\<lambda>p. decp (encp p)) ` fset S"
      unfolding kvs_def set_map set_es by (simp only: image_image)
    also have "\<dots> = fset S" using dec_enc by (simp add: image_iff set_eq_iff)
    finally show ?thesis .
  qed
  have fs: "fset_of_list kvs = S"
  proof -
    have "fset (fset_of_list kvs) = fset S" using set_kvs by (simp only: fset_of_list.rep_eq)
    then show ?thesis by (simp only: fset_inject)
  qed
  have dk: "distinct (map fst kvs)"
  proof -
    have "inj_on fst (set kvs)" using uniq unfolding set_kvs inj_on_def by blast
    then show ?thesis using distinct_kvs by (simp add: distinct_map)
  qed
  have srt: "sorted_wrt (<) (map (\<lambda>p. the (encode K (fst p))) kvs)"
  proof -
    have "map (\<lambda>p. the (encode K (fst p))) kvs = map fst (map encp kvs)"
      by (simp add: encp_def encoded_def)
    then have eq: "map (\<lambda>p. the (encode K (fst p))) kvs = map fst es" using bk by simp
    have "inj_on fst (set es)"
    proof (rule inj_onI)
      fix e1 e2 assume e: "e1 \<in> set es" "e2 \<in> set es" "fst e1 = fst e2"
      then obtain p q where pq: "p \<in> fset S" "e1 = encp p" "q \<in> fset S" "e2 = encp q"
        using set_es by auto
      with e(3) have "encoded K (fst p) = encoded K (fst q)" by (simp add: encp_def)
      then have "decoded K (encoded K (fst p)) = decoded K (encoded K (fst q))" by simp
      then have "fst p = fst q"
        using roundtripsD(3) [OF rk [OF pq(1)]] roundtripsD(3) [OF rk [OF pq(3)]] by simp
      then have "p = q" using uniq pq by blast
      then show "e1 = e2" using pq by simp
    qed
    then have "distinct (map fst es)" using distinct_es by (simp add: distinct_map)
    moreover have "sorted (map fst es)" using sorted_es by (rule sorted_map_fst)
    ultimately show ?thesis unfolding eq by (simp add: strict_sorted_iff)
  qed
  have "decode_from (TMapping K V) ((enc_count (length es) @ concat (map h es)) @ r) = Some (v, r)" for r
  proof -
    have "dec_count ((enc_count (length es) @ concat (map h es)) @ r)
            = Some (length es, concat (map h es) @ r)"
      using fl by (simp add: dec_count_enc_count)
    from decode_from_MappingI [OF this rep dk] srt
    show ?thesis unfolding fs v by blast
  qed
  with enc show ?thesis by (rule roundtripsI)
qed

lemma chain_encoded:
  assumes "length xs = length Ts"
    and "\<forall>p\<in>set (zip Ts xs). roundtrips (fst p) (snd p)"
  shows "\<exists>es. those (map (\<lambda>(T, x). encode T x) (zip Ts xs)) = Some es \<and>
           (\<forall>r. chain (map decode_from Ts) (concat es @ r) = Some (xs, r))"
  using assms
proof (induction xs Ts rule: list_induct2)
  case Nil
  then show ?case by simp
next
  case (Cons x xs T Ts)
  then obtain es where es: "those (map (\<lambda>(T, x). encode T x) (zip Ts xs)) = Some es"
    "\<And>r. chain (map decode_from Ts) (concat es @ r) = Some (xs, r)"
    by auto
  have rt: "roundtrips T x" using Cons.prems by simp
  have "those (map (\<lambda>(T, x). encode T x) (zip (T # Ts) (x # xs))) = Some (encoded T x # es)"
    using es(1) roundtripsD(1) [OF rt] by simp
  moreover have "chain (map decode_from (T # Ts)) (concat (encoded T x # es) @ r) = Some (x # xs, r)" for r
    using es(2) [of r] roundtripsD(2) [OF rt, of "concat es @ r"] by simp
  ultimately show ?case by blast
qed

lemma roundtrips_Tuple:
  assumes IH: "\<And>T x. T \<in> set Ts \<Longrightarrow> has_type T x \<Longrightarrow> roundtrips T x"
    and ty: "has_type (TTuple Ts) v"
  shows "roundtrips (TTuple Ts) v"
proof -
  from ty obtain xs where v: "v = VTuple xs" and len: "length xs = length Ts"
    and el: "\<forall>p\<in>set (zip Ts xs). has_type (fst p) (snd p)"
    by (cases v) auto
  have "\<forall>p\<in>set (zip Ts xs). roundtrips (fst p) (snd p)"
  proof
    fix p assume p: "p \<in> set (zip Ts xs)"
    then have "(fst p, snd p) \<in> set (zip Ts xs)" by simp
    then have "fst p \<in> set Ts" by (rule set_zip_leftD)
    then show "roundtrips (fst p) (snd p)" using IH el p by blast
  qed
  from chain_encoded [OF len this] obtain es where
    es: "those (map (\<lambda>(T, x). encode T x) (zip Ts xs)) = Some es"
      "\<And>r. chain (map decode_from Ts) (concat es @ r) = Some (xs, r)"
    by blast
  have "encode (TTuple Ts) v = Some (concat es)" using v len es(1) by simp
  moreover have "decode_from (TTuple Ts) (concat es @ r) = Some (v, r)" for r
    using v es(2) [of r] by simp
  ultimately show ?thesis by (rule roundtripsI)
qed

lemma roundtrips_Variant:
  assumes IH: "\<And>T x. T \<in> set Ts \<Longrightarrow> has_type T x \<Longrightarrow> roundtrips T x"
    and ty: "has_type (TVariant Ts) v"
  shows "roundtrips (TVariant Ts) v"
proof -
  from ty obtain i x where v: "v = VVariant i x" and i: "i < length Ts" "fits_count i"
    and el: "has_type (Ts ! i) x"
    by (cases v) (auto split: if_splits)
  have rt: "roundtrips (Ts ! i) x" using IH [OF nth_mem [OF i(1)] el] .
  have "encode (TVariant Ts) v = Some (enc_count i @ encoded (Ts ! i) x)"
    using v i roundtripsD(1) [OF rt] by simp
  moreover have "decode_from (TVariant Ts) ((enc_count i @ encoded (Ts ! i) x) @ r) = Some (v, r)" for r
    using v i roundtripsD(2) [OF rt, of r] by (simp add: dec_count_enc_count)
  ultimately show ?thesis by (rule roundtripsI)
qed

lemma has_type_roundtrips: "has_type T v \<Longrightarrow> roundtrips T v"
proof (induction T arbitrary: v)
  case TBool
  then show ?case by (cases v) (auto simp: roundtrips_def)
next
  case TInt8
  then show ?case by (cases v) (auto simp: roundtrips_def dec_word_enc_word)
next
  case TInt16
  then show ?case by (cases v) (auto simp: roundtrips_def dec_word_enc_word)
next
  case TInt32
  then show ?case by (cases v) (auto simp: roundtrips_def dec_word_enc_word)
next
  case TInt64
  then show ?case by (cases v) (auto simp: roundtrips_def dec_word_enc_word)
next
  case TUInt8
  then show ?case by (cases v) (auto simp: roundtrips_def dec_word_enc_word)
next
  case TUInt16
  then show ?case by (cases v) (auto simp: roundtrips_def dec_word_enc_word)
next
  case TUInt32
  then show ?case by (cases v) (auto simp: roundtrips_def dec_word_enc_word)
next
  case TUInt64
  then show ?case by (cases v) (auto simp: roundtrips_def dec_word_enc_word)
next
  case TFloat
  then show ?case by (cases v) (auto simp: roundtrips_def dec_word_enc_word)
next
  case TDouble
  then show ?case by (cases v) (auto simp: roundtrips_def dec_word_enc_word)
next
  case TString
  then show ?case
    by (cases v) (auto simp: roundtrips_def dec_count_enc_count take_bytes_append)
next
  case TUUID
  then show ?case by (cases v) (auto simp: roundtrips_def take_bytes_append)
next
  case TAddr
  then show ?case by (cases v) (auto simp: roundtrips_def dec_word_enc_word)
next
  case TOffset
  then show ?case
    by (cases v) (auto simp: roundtrips_def take_bytes_append dec_word_enc_word)
next
  case (TSequence T)
  then show ?case by (intro roundtrips_Sequence)
next
  case (TSet T)
  then show ?case by (intro roundtrips_Set)
next
  case (TMapping K V)
  then show ?case by (intro roundtrips_Mapping)
next
  case (TTuple Ts)
  then show ?case by (intro roundtrips_Tuple)
next
  case (TVariant Ts)
  then show ?case by (intro roundtrips_Variant)
qed

lemma reencodesI:
  "(\<And>bs v r. decode_from T bs = Some (v, r) \<Longrightarrow> \<exists>e. bs = e @ r \<and> encode T v = Some e)
   \<Longrightarrow> reencodes T"
  by (simp add: reencodes_def)

lemma reencodesD:
  "reencodes T \<Longrightarrow> decode_from T bs = Some (v, r) \<Longrightarrow> \<exists>e. bs = e @ r \<and> encode T v = Some e"
  by (simp add: reencodes_def)

lemma reencodes_word:
  fixes C :: "'a::len word \<Rightarrow> val"
  assumes "\<And>bs. decode_from T bs = map_option (apfst C) (dec_word bs)"
    and "\<And>w. encode T (C w) = Some (enc_word w)"
    and "8 dvd LENGTH('a)"
  shows "reencodes T"
proof (rule reencodesI)
  fix bs v r assume "decode_from T bs = Some (v, r)"
  then obtain w where w: "dec_word bs = Some (w, r)" "v = C w"
    unfolding assms(1) by auto
  from dec_word_SomeD [OF assms(3) w(1)] have "bs = enc_word w @ r" .
  then show "\<exists>e. bs = e @ r \<and> encode T v = Some e" using w(2) assms(2) by simp
qed

lemma map_Some_encoded:
  assumes "map (encode T) xs = map Some es"
  shows "map (\<lambda>x. the (encode T x)) xs = es" and "\<forall>x\<in>set xs. encode T x \<noteq> None"
proof -
  have "map (\<lambda>x. the (encode T x)) xs = map the (map (encode T) xs)" by simp
  also have "\<dots> = es" unfolding assms by (simp add: comp_def)
  finally show "map (\<lambda>x. the (encode T x)) xs = es" .
  show "\<forall>x\<in>set xs. encode T x \<noteq> None"
  proof
    fix x assume "x \<in> set xs"
    then have "encode T x \<in> set (map (encode T) xs)" by simp
    then show "encode T x \<noteq> None" unfolding assms by auto
  qed
qed

lemma reencodes_Sequence:
  assumes "reencodes T"
  shows "reencodes (TSequence T)"
proof (rule reencodesI)
  fix bs v r assume d: "decode_from (TSequence T) bs = Some (v, r)"
  then obtain n r1 xs where n: "dec_count bs = Some (n, r1)"
    and rep: "repeat (decode_from T) n r1 = Some (xs, r)" and v: "v = VSequence xs"
    by (auto split: option.splits)
  from dec_count_SomeD [OF n] have bs: "bs = enc_count n @ r1" and fits: "fits_count n" by simp_all
  from repeat_decoded [where enc = "encode T", OF reencodesD [OF assms] rep]
  obtain es where es: "length xs = n" "r1 = concat es @ r" "map (encode T) xs = map Some es"
    by blast
  have "those (map (encode T) xs) = Some es" using es(3) by (simp only: those_eq_Some)
  moreover have "length es = n" using es(1,3) by (metis length_map)
  ultimately have "encode (TSequence T) v = Some (enc_count n @ concat es)"
    using v fits by simp
  then show "\<exists>e. bs = e @ r \<and> encode (TSequence T) v = Some e" using bs es(2) by simp
qed

lemma reencodes_Set:
  assumes "reencodes T"
  shows "reencodes (TSet T)"
proof (rule reencodesI)
  fix bs v r assume d: "decode_from (TSet T) bs = Some (v, r)"
  then obtain n r1 xs where n: "dec_count bs = Some (n, r1)"
    and rep: "repeat (decode_from T) n r1 = Some (xs, r)"
    and chk: "distinct xs" "sorted_wrt (<) (map (\<lambda>x. the (encode T x)) xs)"
    and v: "v = VSet (fset_of_list xs)"
    by (auto split: option.splits if_splits)
  from dec_count_SomeD [OF n] have bs: "bs = enc_count n @ r1" and fits: "fits_count n" by simp_all
  from repeat_decoded [where enc = "encode T", OF reencodesD [OF assms] rep]
  obtain es where es: "length xs = n" "r1 = concat es @ r" "map (encode T) xs = map Some es"
    by blast
  note m = map_Some_encoded [OF es(3)]
  have len: "length es = n" using es(1,3) by (metis length_map)
  have sd: "sorted es" "distinct es" using chk(2) unfolding m(1) by (simp_all add: strict_sorted_iff)
  have "(\<lambda>x. the (encode T x)) |`| fset_of_list xs = fset_of_list es"
    using m(1) by (metis fset_of_list_map)
  then have sl: "sorted_list_of_fset ((\<lambda>x. the (encode T x)) |`| fset_of_list xs) = es"
    using sorted_list_of_fset_unique [OF sd] by simp
  have none: "\<not> None |\<in>| encode T |`| fset_of_list xs"
    using m(2) by (auto simp: fset_of_list.rep_eq)
  have "encode (TSet T) v = Some (enc_count n @ concat es)"
    using v none sl len fits by (simp add: Let_def)
  then show "\<exists>e. bs = e @ r \<and> encode (TSet T) v = Some e" using bs es(2) by simp
qed

lemma pair_decoder_SomeD:
  "pair_decoder f g bs = Some (p, r) \<Longrightarrow>
   \<exists>r1. f bs = Some (fst p, r1) \<and> g r1 = Some (snd p, r)"
  by (auto simp: pair_decoder_def split: option.splits)

lemma reencodes_Mapping:
  assumes K: "reencodes K" and V: "reencodes V"
  shows "reencodes (TMapping K V)"
proof (rule reencodesI)
  fix bs v r assume d: "decode_from (TMapping K V) bs = Some (v, r)"
  then obtain n r1 kvs where n: "dec_count bs = Some (n, r1)"
    and rep: "repeat (pair_decoder (decode_from K) (decode_from V)) n r1 = Some (kvs, r)"
    and chk: "distinct (map fst kvs)" "sorted_wrt (<) (map (\<lambda>p. the (encode K (fst p))) kvs)"
    and v: "v = VMapping (fset_of_list kvs)"
    by (auto split: option.splits if_splits)
  from dec_count_SomeD [OF n] have bs: "bs = enc_count n @ r1" and fits: "fits_count n" by simp_all
  define encp where "encp = (\<lambda>p. (encoded K (fst p), encoded V (snd p)))"
  define h :: "byte list \<times> byte list \<Rightarrow> byte list" where "h = (\<lambda>(a, b). a @ b)"
  define encb where "encb = (\<lambda>p. if encode K (fst p) \<noteq> None \<and> encode V (snd p) \<noteq> None
                                  then Some (h (encp p)) else None)"
  have encp_eq: "(\<lambda>(k, x). (the (encode K k), the (encode V x))) = encp"
    by (auto simp: encp_def encoded_def fun_eq_iff)
  have step: "\<exists>e. bs = e @ r \<and> encb p = Some e"
    if "pair_decoder (decode_from K) (decode_from V) bs = Some (p, r)" for bs p r
  proof -
    from pair_decoder_SomeD [OF that] obtain r1 where
      k: "decode_from K bs = Some (fst p, r1)" and x: "decode_from V r1 = Some (snd p, r)"
      by blast
    from reencodesD [OF K k] obtain a where a: "bs = a @ r1" "encode K (fst p) = Some a" by blast
    from reencodesD [OF V x] obtain b where b: "r1 = b @ r" "encode V (snd p) = Some b" by blast
    show ?thesis using a b by (simp add: encb_def encp_def h_def encoded_def)
  qed
  from repeat_decoded [where enc = encb, OF step rep]
  obtain cs where cs: "length kvs = n" "r1 = concat cs @ r" "map encb kvs = map Some cs"
    by blast
  have ok: "encode K (fst p) \<noteq> None \<and> encode V (snd p) \<noteq> None" if "p \<in> set kvs" for p
  proof -
    from that have "encb p \<in> set (map encb kvs)" by simp
    then have "encb p \<noteq> None" unfolding cs(3) by auto
    then show ?thesis by (auto simp: encb_def split: if_splits)
  qed
  have cs_eq: "cs = map h (map encp kvs)"
  proof -
    have "map Some cs = map (\<lambda>p. Some (h (encp p))) kvs"
      unfolding cs(3) [symmetric] using ok by (simp add: encb_def)
    then have "map the (map Some cs) = map the (map (\<lambda>p. Some (h (encp p))) kvs)" by simp
    then show ?thesis by (simp add: comp_def)
  qed
  have "map fst (map encp kvs) = map (\<lambda>p. the (encode K (fst p))) kvs"
    by (simp add: encp_def encoded_def)
  then have "sorted_wrt (<) (map fst (map encp kvs))" using chk(2) by (simp only:)
  then have sd: "sorted (map encp kvs)" "distinct (map encp kvs)"
    using strict_fst_sorted by blast+
  have sl: "sorted_list_of_fset (encp |`| fset_of_list kvs) = map encp kvs"
    using sorted_list_of_fset_unique [OF sd] by simp
  have none: "\<not> (None |\<in>| (\<lambda>(k, x). encode K k) |`| fset_of_list kvs \<or>
                  None |\<in>| (\<lambda>(k, x). encode V x) |`| fset_of_list kvs)"
  proof
    assume "None |\<in>| (\<lambda>(k, x). encode K k) |`| fset_of_list kvs \<or>
            None |\<in>| (\<lambda>(k, x). encode V x) |`| fset_of_list kvs"
    then obtain p where "p \<in> set kvs" "encode K (fst p) = None \<or> encode V (snd p) = None"
      by (force simp: fset_of_list.rep_eq)
    then show False using ok by blast
  qed
  have "encode (TMapping K V) v = Some (enc_count n @ concat cs)"
    using v none fits cs(1) by (simp add: Let_def encp_eq sl cs_eq h_def)
  then show "\<exists>e. bs = e @ r \<and> encode (TMapping K V) v = Some e" using bs cs(2) by simp
qed

lemma chain_decoded:
  assumes "\<forall>T\<in>set Ts. reencodes T"
    and "chain (map decode_from Ts) bs = Some (xs, r)"
  shows "length xs = length Ts \<and>
         (\<exists>es. bs = concat es @ r \<and> those (map (\<lambda>(T, x). encode T x) (zip Ts xs)) = Some es)"
  using assms
proof (induction Ts arbitrary: bs xs)
  case Nil
  then show ?case by simp
next
  case (Cons T Ts)
  from Cons.prems(2) obtain x r1 ys where
    x: "decode_from T bs = Some (x, r1)"
    and ys: "chain (map decode_from Ts) r1 = Some (ys, r)" and xs: "xs = x # ys"
    by (auto split: option.splits)
  have "reencodes T" using Cons.prems(1) by simp
  from reencodesD [OF this x] obtain e where e: "bs = e @ r1" "encode T x = Some e" by blast
  from Cons.IH [OF _ ys] Cons.prems(1) obtain es where
    es: "length ys = length Ts" "r1 = concat es @ r"
      "those (map (\<lambda>(T, x). encode T x) (zip Ts ys)) = Some es"
    by auto
  have "bs = concat (e # es) @ r \<and>
        those (map (\<lambda>(T, x). encode T x) (zip (T # Ts) xs)) = Some (e # es)"
    using e es xs by simp
  then have "\<exists>es. bs = concat es @ r \<and>
        those (map (\<lambda>(T, x). encode T x) (zip (T # Ts) xs)) = Some es" by (rule exI)
  moreover have "length xs = length (T # Ts)" using es(1) xs by simp
  ultimately show ?case by simp
qed

lemma reencodes_Tuple:
  assumes "\<forall>T\<in>set Ts. reencodes T"
  shows "reencodes (TTuple Ts)"
proof (rule reencodesI)
  fix bs v r assume d: "decode_from (TTuple Ts) bs = Some (v, r)"
  then obtain xs where c: "chain (map decode_from Ts) bs = Some (xs, r)" and v: "v = VTuple xs"
    by auto
  from chain_decoded [OF assms c] obtain es where
    es: "length xs = length Ts" "bs = concat es @ r"
      "those (map (\<lambda>(T, x). encode T x) (zip Ts xs)) = Some es"
    by blast
  then show "\<exists>e. bs = e @ r \<and> encode (TTuple Ts) v = Some e" using v by simp
qed

lemma reencodes_Variant:
  assumes "\<forall>T\<in>set Ts. reencodes T"
  shows "reencodes (TVariant Ts)"
proof (rule reencodesI)
  fix bs v r assume d: "decode_from (TVariant Ts) bs = Some (v, r)"
  then obtain i r1 x where n: "dec_count bs = Some (i, r1)" and i: "i < length Ts"
    and x: "decode_from (Ts ! i) r1 = Some (x, r)" and v: "v = VVariant i x"
    by (auto split: option.splits if_splits)
  from dec_count_SomeD [OF n] have bs: "bs = enc_count i @ r1" and fits: "fits_count i" by simp_all
  have "reencodes (Ts ! i)" using assms i by simp
  from reencodesD [OF this x] obtain e where e: "r1 = e @ r" "encode (Ts ! i) x = Some e" by blast
  then show "\<exists>e. bs = e @ r \<and> encode (TVariant Ts) v = Some e" using v i fits bs by simp
qed

lemma reencodes_all: "reencodes T"
proof (induction T)
  case TBool
  show ?case
    by (rule reencodesI) (auto split: list.splits if_splits)
next
  case TInt8
  show ?case by (rule reencodes_word [where C = VInt8]) simp_all
next
  case TInt16
  show ?case by (rule reencodes_word [where C = VInt16]) simp_all
next
  case TInt32
  show ?case by (rule reencodes_word [where C = VInt32]) simp_all
next
  case TInt64
  show ?case by (rule reencodes_word [where C = VInt64]) simp_all
next
  case TUInt8
  show ?case by (rule reencodes_word [where C = VUInt8]) simp_all
next
  case TUInt16
  show ?case by (rule reencodes_word [where C = VUInt16]) simp_all
next
  case TUInt32
  show ?case by (rule reencodes_word [where C = VUInt32]) simp_all
next
  case TUInt64
  show ?case by (rule reencodes_word [where C = VUInt64]) simp_all
next
  case TFloat
  show ?case by (rule reencodes_word [where C = VFloat]) simp_all
next
  case TDouble
  show ?case by (rule reencodes_word [where C = VDouble]) simp_all
next
  case TString
  show ?case
  proof (rule reencodesI)
    fix bs v r assume "decode_from TString bs = Some (v, r)"
    then obtain n r1 s where n: "dec_count bs = Some (n, r1)"
      and s: "take_bytes n r1 = Some (s, r)" and v: "v = VString s"
      by (auto split: option.splits)
    from dec_count_SomeD [OF n] take_bytes_SomeD [OF s] v
    show "\<exists>e. bs = e @ r \<and> encode TString v = Some e" by simp
  qed
next
  case TUUID
  show ?case
  proof (rule reencodesI)
    fix bs v r assume "decode_from TUUID bs = Some (v, r)"
    then obtain u where u: "take_bytes 16 bs = Some (u, r)" and v: "v = VUUID u" by auto
    from take_bytes_SomeD [OF u] v
    show "\<exists>e. bs = e @ r \<and> encode TUUID v = Some e" by simp
  qed
next
  case TAddr
  show ?case by (rule reencodes_word [where C = VAddr]) simp_all
next
  case TOffset
  show ?case
  proof (rule reencodesI)
    fix bs v r assume "decode_from TOffset bs = Some (v, r)"
    then obtain u r1 d where u: "take_bytes 16 bs = Some (u, r1)"
      and d: "dec_word r1 = Some (d :: 64 word, r)" and v: "v = VOffset u d"
      by (auto split: option.splits)
    have "r1 = enc_word d @ r" by (rule dec_word_SomeD [OF _ d]) simp
    with take_bytes_SomeD [OF u] v
    show "\<exists>e. bs = e @ r \<and> encode TOffset v = Some e" by simp
  qed
next
  case (TSequence T)
  then show ?case by (rule reencodes_Sequence)
next
  case (TSet T)
  then show ?case by (rule reencodes_Set)
next
  case (TMapping K V)
  then show ?case by (rule reencodes_Mapping)
next
  case (TTuple Ts)
  then show ?case by (intro reencodes_Tuple) simp
next
  case (TVariant Ts)
  then show ?case by (intro reencodes_Variant) simp
qed

lemma chain_typed:
  assumes "\<forall>T\<in>set Ts. \<forall>bs v r. decode_from T bs = Some (v, r) \<longrightarrow> has_type T v"
    and "chain (map decode_from Ts) bs = Some (xs, r)"
  shows "length xs = length Ts \<and> (\<forall>p\<in>set (zip Ts xs). has_type (fst p) (snd p))"
  using assms
proof (induction Ts arbitrary: bs xs)
  case Nil
  then show ?case by simp
next
  case (Cons T Ts)
  from Cons.prems(2) obtain x r1 ys where
    x: "decode_from T bs = Some (x, r1)"
    and ys: "chain (map decode_from Ts) r1 = Some (ys, r)" and xs: "xs = x # ys"
    by (auto split: option.splits)
  have "has_type T x" using Cons.prems(1) x by auto
  moreover from Cons.IH [OF _ ys] Cons.prems(1)
  have "length ys = length Ts \<and> (\<forall>p\<in>set (zip Ts ys). has_type (fst p) (snd p))" by auto
  ultimately show ?case using xs by auto
qed

lemma fcard_fset_of_list_le: "fcard (fset_of_list xs) \<le> length xs"
  by (simp add: fcard.rep_eq fset_of_list.rep_eq card_length)

lemma decode_from_typed: "decode_from T bs = Some (v, r) \<Longrightarrow> has_type T v"
proof (induction T arbitrary: bs v r)
  case TBool
  then show ?case by (auto split: list.splits if_splits)
next
  case TString
  then obtain n r1 s where n: "dec_count bs = Some (n, r1)"
    and s: "take_bytes n r1 = Some (s, r)" and v: "v = VString s"
    by (auto split: option.splits)
  from dec_count_SomeD [OF n] take_bytes_SomeD [OF s] v show ?case by simp
next
  case TUUID
  then obtain u where u: "take_bytes 16 bs = Some (u, r)" and v: "v = VUUID u" by auto
  from take_bytes_SomeD [OF u] v show ?case by simp
next
  case TOffset
  then obtain u r1 d where u: "take_bytes 16 bs = Some (u, r1)" and v: "v = VOffset u d"
    by (auto split: option.splits)
  from take_bytes_SomeD [OF u] v show ?case by simp
next
  case (TSequence T)
  from TSequence.prems obtain n r1 xs where n: "dec_count bs = Some (n, r1)"
    and rep: "repeat (decode_from T) n r1 = Some (xs, r)" and v: "v = VSequence xs"
    by (auto split: option.splits)
  from repeat_typed [where Q = "has_type T", OF TSequence.IH rep]
  have "length xs = n" "\<forall>x\<in>set xs. has_type T x" by simp_all
  then show ?case using v dec_count_SomeD [OF n] by simp
next
  case (TSet T)
  from TSet.prems obtain n r1 xs where n: "dec_count bs = Some (n, r1)"
    and rep: "repeat (decode_from T) n r1 = Some (xs, r)"
    and v: "v = VSet (fset_of_list xs)"
    by (auto split: option.splits if_splits)
  from repeat_typed [where Q = "has_type T", OF TSet.IH rep]
  have l: "length xs = n" and t: "\<forall>x\<in>set xs. has_type T x" by simp_all
  have "fits_count (fcard (fset_of_list xs))"
    using fcard_fset_of_list_le [of xs] l dec_count_SomeD [OF n] by (simp add: fits_count_iff)
  then show ?case using v t by (simp add: fset_of_list.rep_eq)
next
  case (TMapping K V)
  from TMapping.prems obtain n r1 kvs where n: "dec_count bs = Some (n, r1)"
    and rep: "repeat (pair_decoder (decode_from K) (decode_from V)) n r1 = Some (kvs, r)"
    and dk: "distinct (map fst kvs)"
    and v: "v = VMapping (fset_of_list kvs)"
    by (auto split: option.splits if_splits)
  have step: "has_type K (fst p) \<and> has_type V (snd p)"
    if "pair_decoder (decode_from K) (decode_from V) bs = Some (p, r)" for bs p r
    using pair_decoder_SomeD [OF that] TMapping.IH by blast
  from repeat_typed [where Q = "\<lambda>p. has_type K (fst p) \<and> has_type V (snd p)", OF step rep]
  have l: "length kvs = n" and t: "\<forall>p\<in>set kvs. has_type K (fst p) \<and> has_type V (snd p)"
    by simp_all
  have f: "fits_count (fcard (fset_of_list kvs))"
    using fcard_fset_of_list_le [of kvs] l dec_count_SomeD [OF n] by (simp add: fits_count_iff)
  have "inj_on fst (set kvs)" using dk by (simp add: distinct_map)
  then have u: "\<forall>p\<in>set kvs. \<forall>q\<in>set kvs. fst p = fst q \<longrightarrow> p = q"
    by (auto dest: inj_onD)
  show ?case using v t f u by (simp add: fset_of_list.rep_eq)
next
  case (TTuple Ts)
  from TTuple.prems obtain xs where c: "chain (map decode_from Ts) bs = Some (xs, r)"
    and v: "v = VTuple xs"
    by auto
  have "\<forall>T\<in>set Ts. \<forall>bs v r. decode_from T bs = Some (v, r) \<longrightarrow> has_type T v"
    using TTuple.IH by blast
  from chain_typed [OF this c] v show ?case by simp
next
  case (TVariant Ts)
  from TVariant.prems obtain i r1 x where n: "dec_count bs = Some (i, r1)" and i: "i < length Ts"
    and x: "decode_from (Ts ! i) r1 = Some (x, r)" and v: "v = VVariant i x"
    by (auto split: option.splits if_splits)
  have "has_type (Ts ! i) x" using TVariant.IH [OF nth_mem [OF i] x] .
  then show ?case using v i dec_count_SomeD [OF n] by simp
qed auto

lemma decode_SomeD: "decode T bs = Some v \<Longrightarrow> decode_from T bs = Some (v, [])"
  by (auto simp: decode_def split: option.splits if_splits)

lemma decode_encode:
  assumes "has_type T v"
  shows "\<exists>e. encode T v = Some e \<and> decode T e = Some v"
proof -
  from roundtripsD(1) [OF has_type_roundtrips [OF assms]]
       roundtripsD(2) [OF has_type_roundtrips [OF assms], of "[]"]
  show ?thesis by (simp add: decode_def)
qed

lemma encode_decode:
  assumes "decode T bs = Some v"
  shows "encode T v = Some bs"
  using reencodesD [OF reencodes_all decode_SomeD [OF assms]] by simp

section \<open>Claims about the AuxData codec\<close>

text \<open>
  Claim C2. For every type \<open>T\<close> and every value \<open>v\<close> of type \<open>T\<close>, \<open>v\<close> has an encoding
  and decoding it yields \<open>v\<close>. For every byte sequence \<open>bs\<close> that decodes successfully
  under \<open>T\<close>, the decoded value is of type \<open>T\<close> and re-encoding it yields exactly \<open>bs\<close>.
\<close>

theorem auxdata_codec_roundtrip:
  "(has_type T v \<longrightarrow> (\<exists>e. encode T v = Some e \<and> decode T e = Some v)) \<and>
   (decode T bs = Some v \<longrightarrow> has_type T v \<and> encode T v = Some bs)"
proof (intro conjI impI)
  assume "has_type T v"
  from decode_encode [OF this] show "\<exists>e. encode T v = Some e \<and> decode T e = Some v" .
next
  assume d: "decode T bs = Some v"
  from decode_from_typed [OF decode_SomeD [OF d]] show "has_type T v" .
next
  assume d: "decode T bs = Some v"
  from encode_decode [OF d] show "encode T v = Some bs" .
qed

theorem auxdata_codec_roundtrip_witness:
  "has_type (TMapping TUUID TUInt64) (VMapping {|(VUUID (replicate 16 7), VUInt64 8)|}) \<and>
   encode (TMapping TUUID TUInt64) (VMapping {|(VUUID (replicate 16 7), VUInt64 8)|})
     = Some ([1, 0, 0, 0, 0, 0, 0, 0] @ replicate 16 7 @ [8, 0, 0, 0, 0, 0, 0, 0]) \<and>
   decode (TMapping TUUID TUInt64) ([1, 0, 0, 0, 0, 0, 0, 0] @ replicate 16 7 @ [8, 0, 0, 0, 0, 0, 0, 0])
     = Some (VMapping {|(VUUID (replicate 16 7), VUInt64 8)|}) \<and>
   decode (TSet TUInt8) [2, 0, 0, 0, 0, 0, 0, 0, 1, 2] = Some (VSet {|VUInt8 1, VUInt8 2|}) \<and>
   has_type (TSet TUInt8) (VSet {|VUInt8 1, VUInt8 2|}) \<and>
   encode (TSet TUInt8) (VSet {|VUInt8 1, VUInt8 2|}) = Some [2, 0, 0, 0, 0, 0, 0, 0, 1, 2] \<and>
   decode (TSet TUInt8) [2, 0, 0, 0, 0, 0, 0, 0, 2, 1] = None \<and>
   decode (TSet TUInt8) [2, 0, 0, 0, 0, 0, 0, 0, 1, 1] = None \<and>
   decode (TSet TUInt8) [2, 0, 0, 0, 0, 0, 0, 0, 1, 2, 3] = None \<and>
   decode (TVariant [TBool, TUInt8]) [2, 0, 0, 0, 0, 0, 0, 0, 1] = None"
proof -
  let ?T = "TMapping TUUID TUInt64" and ?v = "VMapping {|(VUUID (replicate 16 7), VUInt64 8)|}"
  let ?e = "[1, 0, 0, 0, 0, 0, 0, 0] @ replicate 16 7 @ [8, 0, 0, 0, 0, 0, 0, 0] :: byte list"
  have t: "has_type ?T ?v" by code_simp
  have e: "encode ?T ?v = Some ?e" by code_simp
  have o: "decode (TSet TUInt8) [2, 0, 0, 0, 0, 0, 0, 0, 1, 2] = Some (VSet {|VUInt8 1, VUInt8 2|})"
    by code_simp
  have n1: "decode (TSet TUInt8) [2, 0, 0, 0, 0, 0, 0, 0, 2, 1] = None" by code_simp
  have n2: "decode (TSet TUInt8) [2, 0, 0, 0, 0, 0, 0, 0, 1, 1] = None" by code_simp
  have n3: "decode (TSet TUInt8) [2, 0, 0, 0, 0, 0, 0, 0, 1, 2, 3] = None" by code_simp
  have n4: "decode (TVariant [TBool, TUInt8]) [2, 0, 0, 0, 0, 0, 0, 0, 1] = None" by code_simp
  from auxdata_codec_roundtrip [where T = ?T and v = ?v] t e have d: "decode ?T ?e = Some ?v" by auto
  from auxdata_codec_roundtrip [where T = "TSet TUInt8" and bs = "[2, 0, 0, 0, 0, 0, 0, 0, 1, 2]"
      and v = "VSet {|VUInt8 1, VUInt8 2|}"] o
  have r: "has_type (TSet TUInt8) (VSet {|VUInt8 1, VUInt8 2|})"
    "encode (TSet TUInt8) (VSet {|VUInt8 1, VUInt8 2|}) = Some [2, 0, 0, 0, 0, 0, 0, 0, 1, 2]"
    by blast+
  from t e d o r n1 n2 n3 n4 show ?thesis by blast
qed

end
